theory Spec2Isabelle
  imports Complex_Main "HOL-Library.Log_Nat" "HOL-Library.Word"
begin

section \<open>SQL report validator: a shallow embedding of \<open>streamlit_app.py\<close>\<close>

text \<open>
  The script loads a CSV file into a pandas data frame, runs five validation checks on
  it, and answers questions about the findings through a completion service. Python
  exceptions are values of \<open>py_error\<close>; a computation that may raise returns
  \<open>py_error + 'a\<close>, with \<open>Inl\<close> for the exception.
\<close>

datatype py_error = KeyError | NameError | TypeError | ZeroDivisionError | OverflowError

text \<open>\<open>KeyError\<close> is the only subclass of \<open>LookupError\<close> among them.\<close>

fun is_LookupError :: "py_error \<Rightarrow> bool" where
  "is_LookupError KeyError = True"
| "is_LookupError _ = False"

subsection \<open>The explanation helper\<close>

text \<open>
  \<open>explain\<close> builds a dictionary of dictionaries and indexes it twice:
  \<^verbatim>\<open>return messages[check][severity]\<close>. A dictionary literal is an association
  list read with \<open>map_of\<close>; indexing with a key that is not there raises \<open>KeyError\<close>.
\<close>

type_synonym explanation = "string \<times> string \<times> string"

definition messages :: "(string \<times> (string \<times> explanation) list) list" where
  "messages =
    [(''duplicates'',
        [(''PASS'',
            (''No duplicate rows detected.'',
             ''Duplicate rows usually occur due to incorrect joins.'',
             ''No action needed.'')),
         (''WARNING'',
            (''Duplicate rows found in the report.'',
             ''Often caused by joins that multiply rows.'',
             ''Review joins and aggregation grain.''))]),
     (''pk_duplicates'',
        [(''PASS'',
            (''Primary key is unique.'',
             ''Uniqueness indicates correct data grain.'',
             ''No action needed.'')),
         (''WARNING'',
            (''Primary key contains duplicate values.'',
             ''Likely one-to-many joins without pre-aggregation.'',
             ''Check join keys and table grain.''))]),
     (''aggregation'',
        [(''PASS'',
            (''Reported revenue matches calculated revenue.'',
             ''Aggregation logic appears correct.'',
             ''No action needed.'')),
         (''FAIL'',
            (''Reported revenue does not match calculated revenue.'',
             ''Usually caused by join duplication or wrong formulas.'',
             ''Validate joins and aggregation logic.''))]),
     (''join_risk'',
        [(''LOW'',
            (''Low risk of join inflation.'',
             ''Row count aligns with primary key uniqueness.'',
             ''No action needed.'')),
         (''MEDIUM'',
            (''Moderate risk of join inflation.'',
             ''Some duplication exists at the key level.'',
             ''Review joins to many-side tables.'')),
         (''HIGH'',
            (''High risk of join inflation.'',
             ''Primary keys repeat many times, inflating totals.'',
             ''Pre-aggregate before joins or fix join conditions.''))])]"

definition dict_getitem :: "('k \<times> 'v) list \<Rightarrow> 'k \<Rightarrow> py_error + 'v" where
  "dict_getitem d k = (case map_of d k of None \<Rightarrow> Inl KeyError | Some v \<Rightarrow> Inr v)"

definition explain :: "string \<Rightarrow> string \<Rightarrow> py_error + explanation" where
  "explain check severity =
     (case dict_getitem messages check of
        Inl e \<Rightarrow> Inl e
      | Inr inner \<Rightarrow> dict_getitem inner severity)"

text \<open>The (check, severity) pairs of the specification's table, in its order.\<close>

definition enumerated_pairs :: "(string \<times> string) list" where
  "enumerated_pairs =
    [(''duplicates'', ''PASS''), (''duplicates'', ''WARNING''),
     (''pk_duplicates'', ''PASS''), (''pk_duplicates'', ''WARNING''),
     (''aggregation'', ''PASS''), (''aggregation'', ''FAIL''),
     (''join_risk'', ''LOW''), (''join_risk'', ''MEDIUM''), (''join_risk'', ''HIGH'')]"

subsection \<open>Data frames\<close>

text \<open>
  \<open>pd.read_csv\<close> yields a frame of named columns, each with a dtype, over a sequence
  of rows. A cell is a number, a string, a boolean or the missing value \<open>NaN\<close>; the
  numbers of a frame are of a type \<open>'n\<close> with an order and a zero. The frame is kept
  row by row; the series \<open>df[c]\<close> of a column is read off the rows.
\<close>

datatype dtype = Int64 | Float64 | Bool | Object

datatype 'n cell = NaN | Num 'n | Str string | Bl bool

type_synonym 'n series = "'n cell list"

record 'n dataframe =
  columns :: "string list"
  dtypes :: "dtype list"
  data :: "'n cell list list"

fun cell_has_dtype :: "dtype \<Rightarrow> 'n cell \<Rightarrow> bool" where
  "cell_has_dtype Int64 (Num x) = True"
| "cell_has_dtype Float64 (Num x) = True"
| "cell_has_dtype Float64 NaN = True"
| "cell_has_dtype Bool (Bl b) = True"
| "cell_has_dtype Object c = True"
| "cell_has_dtype _ _ = False"

text \<open>
  The invariant of a frame read from a CSV file: column names are unique (the reader
  renames repeated headers), there is one dtype per column, and every row has one cell
  per column, of the column's dtype.
\<close>

definition wf_frame :: "'n dataframe \<Rightarrow> bool" where
  "wf_frame df \<longleftrightarrow>
     distinct (columns df) \<and> length (dtypes df) = length (columns df)
     \<and> list_all (\<lambda>r. list_all2 cell_has_dtype (dtypes df) r) (data df)"

definition shape0 :: "'n dataframe \<Rightarrow> nat" where
  "shape0 df = length (data df)"

definition shape1 :: "'n dataframe \<Rightarrow> nat" where
  "shape1 df = length (columns df)"

fun index_of :: "'a \<Rightarrow> 'a list \<Rightarrow> nat option" where
  "index_of x [] = None"
| "index_of x (y # ys) = (if x = y then Some 0 else map_option Suc (index_of x ys))"

definition column_at :: "'n dataframe \<Rightarrow> nat \<Rightarrow> 'n series" where
  "column_at df i = map (\<lambda>r. r ! i) (data df)"

text \<open>\<open>df[c]\<close>: the series of the column named \<open>c\<close>, \<open>KeyError\<close> when there is none.\<close>

definition getitem :: "'n dataframe \<Rightarrow> string \<Rightarrow> py_error + 'n series" where
  "getitem df c =
     (case index_of c (columns df) of
        None \<Rightarrow> Inl KeyError
      | Some i \<Rightarrow> Inr (column_at df i))"

subsection \<open>Duplicate checks\<close>

text \<open>
  \<open>duplicated()\<close> marks each element that equals an earlier one (\<open>keep='first'\<close>);
  missing values equal each other there. \<open>.sum()\<close> counts the marks.
\<close>

fun duplicated_from :: "'a list \<Rightarrow> 'a list \<Rightarrow> bool list" where
  "duplicated_from seen [] = []"
| "duplicated_from seen (x # xs) = (x \<in> set seen) # duplicated_from (x # seen) xs"

definition duplicated :: "'a list \<Rightarrow> bool list" where
  "duplicated xs = duplicated_from [] xs"

definition count_true :: "bool list \<Rightarrow> nat" where
  "count_true bs = length (filter (\<lambda>b. b) bs)"

definition duplicate_count :: "'n dataframe \<Rightarrow> nat" where
  "duplicate_count df = count_true (duplicated (data df))"

definition dup_status :: "'n dataframe \<Rightarrow> string" where
  "dup_status df = (if duplicate_count df = 0 then ''PASS'' else ''WARNING'')"

definition pk_duplicate_count :: "'n dataframe \<Rightarrow> string \<Rightarrow> py_error + nat" where
  "pk_duplicate_count df primary_key =
     (case getitem df primary_key of
        Inl e \<Rightarrow> Inl e
      | Inr s \<Rightarrow> Inr (count_true (duplicated s)))"

definition pk_status :: "'n dataframe \<Rightarrow> string \<Rightarrow> py_error + string" where
  "pk_status df primary_key =
     (case pk_duplicate_count df primary_key of
        Inl e \<Rightarrow> Inl e
      | Inr n \<Rightarrow> Inr (if n = 0 then ''PASS'' else ''WARNING''))"

text \<open>\<open>nunique()\<close> counts the distinct values of a series, leaving the missing ones out.\<close>

definition nunique :: "'n series \<Rightarrow> nat" where
  "nunique s = length (remdups (filter (\<lambda>c. c \<noteq> NaN) s))"

definition unique_keys :: "'n dataframe \<Rightarrow> string \<Rightarrow> py_error + nat" where
  "unique_keys df primary_key =
     (case getitem df primary_key of
        Inl e \<Rightarrow> Inl e
      | Inr s \<Rightarrow> Inr (nunique s))"

text \<open>
  The operations on a frame that the claims about duplicates speak of: inserting a row
  at position \<open>k\<close>, and overwriting the cell of row \<open>i\<close> in column \<open>p\<close>.
\<close>

definition insert_row :: "nat \<Rightarrow> 'n cell list \<Rightarrow> 'n dataframe \<Rightarrow> 'n dataframe" where
  "insert_row k r df = df\<lparr>data := take k (data df) @ r # drop k (data df)\<rparr>"

definition set_cell :: "nat \<Rightarrow> nat \<Rightarrow> 'n cell \<Rightarrow> 'n dataframe \<Rightarrow> 'n dataframe" where
  "set_cell i p v df = df\<lparr>data := (data df)[i := (data df ! i)[p := v]]\<rparr>"

subsection \<open>Null and negative scans\<close>

fun isnull :: "'n cell \<Rightarrow> bool" where
  "isnull NaN = True"
| "isnull _ = False"

text \<open>\<open>df.isnull().any()\<close>: one boolean per column, in column order.\<close>

definition isnull_any :: "'n dataframe \<Rightarrow> bool list" where
  "isnull_any df = map (\<lambda>i. list_ex isnull (column_at df i)) [0..<length (columns df)]"

text \<open>\<open>df.columns[mask].tolist()\<close>: the names at the positions where the mask holds.\<close>

definition null_columns :: "'n dataframe \<Rightarrow> string list" where
  "null_columns df = map fst (filter snd (zip (columns df) (isnull_any df)))"

fun is_number :: "dtype \<Rightarrow> bool" where
  "is_number Int64 = True"
| "is_number Float64 = True"
| "is_number _ = False"

text \<open>\<open>df.select_dtypes(include="number").columns\<close>\<close>

definition select_dtypes_number :: "'n dataframe \<Rightarrow> string list" where
  "select_dtypes_number df =
     map fst (filter (\<lambda>(c, t). is_number t) (zip (columns df) (dtypes df)))"

text \<open>
  The comparison \<open>x < 0\<close> of one cell: false for a missing value and for a boolean,
  \<open>TypeError\<close> for a string.
\<close>

fun lt_zero :: "('n :: {zero, ord}) cell \<Rightarrow> py_error + bool" where
  "lt_zero (Num x) = Inr (x < 0)"
| "lt_zero NaN = Inr False"
| "lt_zero (Bl b) = Inr False"
| "lt_zero (Str s) = Inl TypeError"

fun series_lt_zero :: "('n :: {zero, ord}) series \<Rightarrow> py_error + bool list" where
  "series_lt_zero [] = Inr []"
| "series_lt_zero (c # cs) =
     (case lt_zero c of
        Inl e \<Rightarrow> Inl e
      | Inr b \<Rightarrow> (case series_lt_zero cs of Inl e \<Rightarrow> Inl e | Inr bs \<Rightarrow> Inr (b # bs)))"

text \<open>The list comprehension over the numeric columns, \<open>(df[c] < 0).any()\<close> its filter.\<close>

fun negative_scan :: "('n :: {zero, ord}) dataframe \<Rightarrow> string list \<Rightarrow> py_error + string list" where
  "negative_scan df [] = Inr []"
| "negative_scan df (c # cs) =
     (case getitem df c of
        Inl e \<Rightarrow> Inl e
      | Inr s \<Rightarrow>
         (case series_lt_zero s of
            Inl e \<Rightarrow> Inl e
          | Inr bs \<Rightarrow>
             (case negative_scan df cs of
                Inl e \<Rightarrow> Inl e
              | Inr rest \<Rightarrow> Inr (if list_ex (\<lambda>b. b) bs then c # rest else rest))))"

definition negative_columns :: "('n :: {zero, ord}) dataframe \<Rightarrow> py_error + string list" where
  "negative_columns df = negative_scan df (select_dtypes_number df)"

subsection \<open>Join-inflation risk\<close>

text \<open>
  \<open>total_rows / unique_keys\<close> divides two Python integers into a float, and
  \<open>round(x, 2)\<close> rounds a float to two decimals into a float again. A finite float is
  modelled by the rational number it denotes. Both operations are correctly rounded:
  the result is the binary64 number nearest to the exact value, the one with the even
  significand when two are equally near. \<open>binary64 a b\<close> is that number for the
  quotient \<open>a / b\<close> of two positive integers: with \<open>e\<close> the binary exponent of the
  quotient (not below that of the subnormal numbers), the quotient is scaled to a
  53-bit significand, rounded to an integer, and scaled back.
\<close>

definition round_half_even :: "rat \<Rightarrow> int" where
  "round_half_even x =
     (let f = \<lfloor>x\<rfloor>; d = x - of_int f
      in if d < 1 / 2 then f else if 1 / 2 < d then f + 1 else if even f then f else f + 1)"

definition exponent_of :: "nat \<Rightarrow> nat \<Rightarrow> int" where
  "exponent_of a b =
     (let d = bitlen (int a) - bitlen (int b)
      in if (of_nat b :: rat) * 2 powi d \<le> of_nat a then d else d - 1)"

definition binary64 :: "nat \<Rightarrow> nat \<Rightarrow> rat" where
  "binary64 a b =
     (if a = 0 then 0
      else let e = max (exponent_of a b) (- 1022);
               m = round_half_even (of_nat a / of_nat b * 2 powi (52 - e))
           in of_int m * 2 powi (e - 52))"

text \<open>A result beyond the largest finite float raises \<open>OverflowError\<close>.\<close>

definition checked_binary64 :: "nat \<Rightarrow> nat \<Rightarrow> py_error + rat" where
  "checked_binary64 a b =
     (let v = binary64 a b in if 2 ^ 1024 \<le> v then Inl OverflowError else Inr v)"

definition py_truediv :: "nat \<Rightarrow> nat \<Rightarrow> py_error + rat" where
  "py_truediv a b = (if b = 0 then Inl ZeroDivisionError else checked_binary64 a b)"

text \<open>
  \<open>round(x, 2)\<close> for a float \<open>x \<ge> 0\<close>: the decimal with two places nearest to the
  stored value of \<open>x\<close> (half to even), converted back to a float.
\<close>

definition round2_decimal :: "rat \<Rightarrow> nat" where
  "round2_decimal x = nat (round_half_even (x * 100))"

definition py_round2 :: "rat \<Rightarrow> py_error + rat" where
  "py_round2 x = checked_binary64 (round2_decimal x) 100"

definition duplication_ratio :: "nat \<Rightarrow> nat \<Rightarrow> py_error + rat option" where
  "duplication_ratio total_rows n_unique =
     (if n_unique > 0
      then (case py_truediv total_rows n_unique of
              Inl e \<Rightarrow> Inl e
            | Inr q \<Rightarrow> (case py_round2 q of Inl e \<Rightarrow> Inl e | Inr r \<Rightarrow> Inr (Some r)))
      else Inr None)"

text \<open>
  The name \<open>join_risk_status\<close> is assigned only inside
  \<open>if duplication_ratio is not None\<close>; \<open>None\<close> below stands for the name being
  unbound. The literal \<open>1.05\<close> is the float nearest to 105/100.
\<close>

definition join_risk_status :: "rat option \<Rightarrow> string option" where
  "join_risk_status ratio =
     (case ratio of
        None \<Rightarrow> None
      | Some r \<Rightarrow>
          Some (if r \<le> binary64 105 100 then ''LOW''
                else if r \<le> 2 then ''MEDIUM''
                else ''HIGH''))"

text \<open>
  The join-inflation finding as the specification words it: rows divided by distinct
  keys in exact arithmetic, rounded to two decimals (a half goes to the even
  neighbour), and the three thresholds on that decimal.
\<close>

definition spec_round2 :: "rat \<Rightarrow> rat" where
  "spec_round2 q = of_int (round_half_even (q * 100)) / 100"

definition spec_severity :: "rat \<Rightarrow> string" where
  "spec_severity r = (if r \<le> 105 / 100 then ''LOW'' else if r \<le> 2 then ''MEDIUM'' else ''HIGH'')"

definition spec_join_risk :: "nat \<Rightarrow> nat \<Rightarrow> (rat \<times> string) option" where
  "spec_join_risk total_rows n_unique =
     (if n_unique = 0 then None
      else let r = spec_round2 (of_nat total_rows / of_nat n_unique)
           in Some (r, spec_severity r))"

subsection \<open>Aggregation check on integer columns\<close>

text \<open>
  \<open>pd.to_numeric\<close> leaves a column of dtype \<open>int64\<close> as it is. On three such columns
  \<open>qty * price\<close>, both \<open>sum()\<close>s, the subtraction and \<open>abs\<close> are 64-bit
  two's-complement operations that wrap around, and the comparison with the float
  \<open>0.01\<close> holds for an integer exactly when it holds for the number \<open>1/100\<close>. On
  columns of floats the same lines add doubles inside the library.
\<close>

definition agg_status_int64 :: "64 word list \<Rightarrow> 64 word list \<Rightarrow> 64 word list \<Rightarrow> string" where
  "agg_status_int64 qty price revenue =
     (let diff = sum_list revenue - sum_list (map2 (*) qty price);
          abs_diff = (if diff <s 0 then - diff else diff)
      in if rat_of_int (sint abs_diff) \<le> 1 / 100 then ''PASS'' else ''FAIL'')"

text \<open>
  The check as the specification words it, on integer columns in exact arithmetic:
  the difference of the sum of the revenues and the sum of the products, and PASS
  when its absolute value is at most 0.01.
\<close>

definition exact_difference :: "int list \<Rightarrow> int list \<Rightarrow> int list \<Rightarrow> int" where
  "exact_difference qty price revenue = sum_list revenue - sum_list (map2 (*) qty price)"

definition spec_agg_status :: "int list \<Rightarrow> int list \<Rightarrow> int list \<Rightarrow> string" where
  "spec_agg_status qty price revenue =
     (if \<bar>rat_of_int (exact_difference qty price revenue)\<bar> \<le> 1 / 100 then ''PASS'' else ''FAIL'')"

subsection \<open>The context builder\<close>

definition digit_char :: "nat \<Rightarrow> char" where
  "digit_char d = ''0123456789'' ! d"

text \<open>\<open>str(n)\<close> of a non-negative integer, as an f-string field renders it.\<close>

function str_nat :: "nat \<Rightarrow> string" where
  "str_nat n = (if n < 10 then [digit_char n] else str_nat (n div 10) @ [digit_char (n mod 10)])"
  by pat_completeness auto
termination
  by (relation "measure id") auto

declare str_nat.simps [simp del]

fun join_str :: "string \<Rightarrow> string list \<Rightarrow> string" where
  "join_str sep [] = []"
| "join_str sep [x] = x"
| "join_str sep (x # y # ys) = x @ sep @ join_str sep (y # ys)"

text \<open>\<open>', '.join(xs) if xs else 'None'\<close>\<close>

definition render_names :: "string list \<Rightarrow> string" where
  "render_names xs = (if xs \<noteq> [] then join_str '', '' xs else ''None'')"

definition newline :: string where
  "newline = [CHR 0x0A]"

text \<open>
  The f-string of \<open>build_gpt_context\<close>, line by line: every line of the template ends
  with a line feed, the first line being empty.
\<close>

definition build_gpt_context ::
  "'n dataframe \<Rightarrow> nat \<Rightarrow> nat \<Rightarrow> string list \<Rightarrow> string list \<Rightarrow> string \<Rightarrow> string \<Rightarrow> string" where
  "build_gpt_context df dup_count pk_dup_count null_cols negative_cols agg_st join_st =
     concat (map (\<lambda>l. l @ newline)
       ['''',
        ''This document is a SQL report exported as CSV.'',
        '''',
        ''Dataset overview:'',
        ''- Rows: '' @ str_nat (shape0 df),
        ''- Columns: '' @ str_nat (shape1 df),
        '''',
        ''Validation findings:'',
        ''- Duplicate rows: '' @ str_nat dup_count,
        ''- Primary key duplicates: '' @ str_nat pk_dup_count,
        ''- Columns with nulls: '' @ render_names null_cols,
        ''- Columns with negative values: '' @ render_names negative_cols,
        ''- Aggregation sanity status: '' @ agg_st,
        ''- Join inflation risk: '' @ join_st,
        '''',
        ''Answer strictly using this information.'',
        ''If unsure, say so clearly.''])"

subsection \<open>The run of the checks\<close>

text \<open>
  The values the script has computed when it reaches the question box. The aggregation
  check computes \<open>abs(diff) <= 0.01\<close> on sums of floats; its outcome enters here as a
  boolean.
\<close>

record findings =
  v_duplicate_count :: nat
  v_pk_duplicate_count :: nat
  v_null_columns :: "string list"
  v_negative_columns :: "string list"
  v_agg_status :: string
  v_join_risk_status :: "string option"

definition agg_status :: "bool \<Rightarrow> string" where
  "agg_status within_tolerance = (if within_tolerance then ''PASS'' else ''FAIL'')"

definition then_do :: "py_error + 'a \<Rightarrow> ('a \<Rightarrow> py_error + 'b) \<Rightarrow> py_error + 'b" where
  "then_do m f = (case m of Inl e \<Rightarrow> Inl e | Inr x \<Rightarrow> f x)"

definition run_checks ::
  "('n :: {zero, ord}) dataframe \<Rightarrow> string \<Rightarrow> bool \<Rightarrow> py_error + findings" where
  "run_checks df primary_key within_tolerance =
     then_do (explain ''duplicates'' (dup_status df)) (\<lambda>_.
     then_do (pk_duplicate_count df primary_key) (\<lambda>pk_count.
     then_do (pk_status df primary_key) (\<lambda>pk_st.
     then_do (explain ''pk_duplicates'' pk_st) (\<lambda>_.
     then_do (unique_keys df primary_key) (\<lambda>uk.
     then_do (duplication_ratio (shape0 df) uk) (\<lambda>ratio.
     then_do (case join_risk_status ratio of
                None \<Rightarrow> Inr None
              | Some st \<Rightarrow> then_do (explain ''join_risk'' st) (\<lambda>x. Inr (Some x))) (\<lambda>_.
     then_do (negative_columns df) (\<lambda>negs.
     then_do (explain ''aggregation'' (agg_status within_tolerance)) (\<lambda>_.
     Inr \<lparr>v_duplicate_count = duplicate_count df,
          v_pk_duplicate_count = pk_count,
          v_null_columns = null_columns df,
          v_negative_columns = negs,
          v_agg_status = agg_status within_tolerance,
          v_join_risk_status = join_risk_status ratio\<rparr>)))))))))"

subsection \<open>The question box\<close>

text \<open>
  The question is a Python string, a list of code points; \<open>strip()\<close> removes the
  white space of \<open>str.isspace\<close> from both ends. Message texts are byte strings, a
  character beyond ASCII in UTF-8.
\<close>

definition is_space :: "nat \<Rightarrow> bool" where
  "is_space c \<longleftrightarrow>
     (9 \<le> c \<and> c \<le> 13) \<or> (28 \<le> c \<and> c \<le> 32) \<or> c = 133 \<or> c = 160 \<or> c = 5760
     \<or> (8192 \<le> c \<and> c \<le> 8202) \<or> c = 8232 \<or> c = 8233 \<or> c = 8239 \<or> c = 8287 \<or> c = 12288"

definition py_strip :: "nat list \<Rightarrow> nat list" where
  "py_strip s = rev (dropWhile is_space (rev (dropWhile is_space s)))"

record completion_request =
  req_model :: string
  req_system :: string
  req_context :: string
  req_question :: "nat list"
  req_temperature :: string

text \<open>
  What pressing the button leads to: an error box, a warning box, or the call of the
  completion service with a request.
\<close>

datatype outcome = St_error string | St_warning string | Completion_call completion_request

definition key_missing_message :: string where
  "key_missing_message =
     ''OpenAI API key not found.'' @ newline @ newline
     @ ''Local: add it to .streamlit/secrets.toml'' @ newline
     @ ''Cloud: add it in App '' @ [CHR 0xE2, CHR 0x86, CHR 0x92]
     @ '' Settings '' @ [CHR 0xE2, CHR 0x86, CHR 0x92] @ '' Secrets''"

text \<open>
  \<open>not api_key\<close> holds for \<open>None\<close> and for the empty string. In the last branch the
  arguments of \<open>build_gpt_context\<close> are evaluated before anything is sent: reading the
  unbound name \<open>join_risk_status\<close> raises \<open>NameError\<close>.
\<close>

definition ask_handler ::
  "string option \<Rightarrow> nat list \<Rightarrow> 'n dataframe \<Rightarrow> findings \<Rightarrow> py_error + outcome" where
  "ask_handler api_key user_question df v =
     (if api_key = None \<or> api_key = Some [] then Inr (St_error key_missing_message)
      else if py_strip user_question = [] then Inr (St_warning ''Please enter a question.'')
      else (case v_join_risk_status v of
              None \<Rightarrow> Inl NameError
            | Some join_st \<Rightarrow>
                Inr (Completion_call
                  \<lparr>req_model = ''gpt-4o-mini'',
                   req_system = ''You are a senior data analyst. ''
                     @ ''Answer strictly using the provided report context.'',
                   req_context = build_gpt_context df (v_duplicate_count v)
                     (v_pk_duplicate_count v) (v_null_columns v) (v_negative_columns v)
                     (v_agg_status v) join_st,
                   req_question = user_question,
                   req_temperature = ''0.2''\<rparr>)))"

fun issues_call :: "py_error + outcome \<Rightarrow> bool" where
  "issues_call (Inr (Completion_call r)) = True"
| "issues_call _ = False"

text \<open>One run of the script with the button pressed.\<close>

definition ask_run ::
  "('n :: {zero, ord}) dataframe \<Rightarrow> string \<Rightarrow> bool \<Rightarrow> string option \<Rightarrow> nat list
     \<Rightarrow> py_error + outcome" where
  "ask_run df primary_key within_tolerance api_key user_question =
     then_do (run_checks df primary_key within_tolerance) (ask_handler api_key user_question df)"

text \<open>\<open>df[c].dtype\<close>, when there is a column \<open>c\<close>.\<close>

definition column_dtype :: "'n dataframe \<Rightarrow> string \<Rightarrow> dtype option" where
  "column_dtype df c = map_option (\<lambda>i. dtypes df ! i) (index_of c (columns df))"

subsection \<open>Sample frames\<close>

text \<open>
  Three orders; the column \<open>B\<close> misses one value, \<open>amount\<close> holds a negative number,
  and the text column \<open>note\<close> holds strings that read like negative numbers.
\<close>

definition sample_frame :: "int dataframe" where
  "sample_frame =
     \<lparr>columns = [''order_id'', ''B'', ''amount'', ''note''],
      dtypes = [Int64, Float64, Float64, Object],
      data = [[Num 1, Num 5, Num (- 3), Str ''-5''],
              [Num 2, NaN, Num 4, Str ''x''],
              [Num 3, Num 7, Num 9, Str ''-1'']]\<rparr>"

text \<open>The same orders with every cell filled in and no negative amount.\<close>

definition complete_frame :: "int dataframe" where
  "complete_frame =
     \<lparr>columns = [''order_id'', ''B'', ''amount'', ''note''],
      dtypes = [Int64, Float64, Float64, Object],
      data = [[Num 1, Num 5, Num 3, Str ''-5''],
              [Num 2, Num 6, Num 4, Str ''x''],
              [Num 3, Num 7, Num 9, Str ''-1'']]\<rparr>"

text \<open>A frame whose key column \<open>customer\<close> holds no value at all.\<close>

definition keyless_frame :: "int dataframe" where
  "keyless_frame =
     \<lparr>columns = [''customer'', ''amount''],
      dtypes = [Float64, Int64],
      data = [[NaN, Num 10], [NaN, Num 20]]\<rparr>"

text \<open>A frame of 211 rows whose key column \<open>customer\<close> holds 200 distinct values.\<close>

definition tie_frame :: "int dataframe" where
  "tie_frame =
     \<lparr>columns = [''customer''],
      dtypes = [Int64],
      data = map (\<lambda>i. [Num (int (i mod 200))]) [0..<211]\<rparr>"

text \<open>The findings of a run on \<open>complete_frame\<close> with the key \<open>order_id\<close>.\<close>

definition sample_findings :: findings where
  "sample_findings =
     \<lparr>v_duplicate_count = 0, v_pk_duplicate_count = 0, v_null_columns = [],
      v_negative_columns = [], v_agg_status = ''PASS'', v_join_risk_status = Some ''LOW''\<rparr>"

section \<open>Properties\<close>

subsection \<open>Explanation lookup\<close>

lemma explain_unknown_check:
  assumes "check \<notin> {''duplicates'', ''pk_duplicates'', ''aggregation'', ''join_risk''}"
  shows "explain check severity = Inl KeyError"
  using assms by (simp add: explain_def dict_getitem_def messages_def)

lemma explain_duplicates:
  "explain ''duplicates'' s =
     (if s = ''PASS'' then Inr (''No duplicate rows detected.'',
             ''Duplicate rows usually occur due to incorrect joins.'',
             ''No action needed.'')
      else if s = ''WARNING'' then Inr (''Duplicate rows found in the report.'',
             ''Often caused by joins that multiply rows.'',
             ''Review joins and aggregation grain.'')
      else Inl KeyError)"
  by (simp add: explain_def dict_getitem_def messages_def)

lemma explain_pk_duplicates:
  "explain ''pk_duplicates'' s =
     (if s = ''PASS'' then Inr (''Primary key is unique.'',
             ''Uniqueness indicates correct data grain.'',
             ''No action needed.'')
      else if s = ''WARNING'' then Inr (''Primary key contains duplicate values.'',
             ''Likely one-to-many joins without pre-aggregation.'',
             ''Check join keys and table grain.'')
      else Inl KeyError)"
  by (simp add: explain_def dict_getitem_def messages_def)

lemma explain_aggregation:
  "explain ''aggregation'' s =
     (if s = ''PASS'' then Inr (''Reported revenue matches calculated revenue.'',
             ''Aggregation logic appears correct.'',
             ''No action needed.'')
      else if s = ''FAIL'' then Inr (''Reported revenue does not match calculated revenue.'',
             ''Usually caused by join duplication or wrong formulas.'',
             ''Validate joins and aggregation logic.'')
      else Inl KeyError)"
  by (simp add: explain_def dict_getitem_def messages_def)

lemma explain_join_risk:
  "explain ''join_risk'' s =
     (if s = ''LOW'' then Inr (''Low risk of join inflation.'',
             ''Row count aligns with primary key uniqueness.'',
             ''No action needed.'')
      else if s = ''MEDIUM'' then Inr (''Moderate risk of join inflation.'',
             ''Some duplication exists at the key level.'',
             ''Review joins to many-side tables.'')
      else if s = ''HIGH'' then Inr (''High risk of join inflation.'',
             ''Primary keys repeat many times, inflating totals.'',
             ''Pre-aggregate before joins or fix join conditions.'')
      else Inl KeyError)"
  by (simp add: explain_def dict_getitem_def messages_def)

text \<open>
  Claim C3. For each of the nine (check, severity) pairs of the table, \<open>explain\<close>
  returns a triple of three non-empty strings; for every other pair of strings it raises
  \<open>KeyError\<close>, a \<open>LookupError\<close>, and returns nothing.
\<close>

theorem explain_total_on_table:
  "((check, severity) \<in> set enumerated_pairs \<longrightarrow>
      (\<exists>plain tech action. explain check severity = Inr (plain, tech, action)
          \<and> plain \<noteq> [] \<and> tech \<noteq> [] \<and> action \<noteq> []))
   \<and> ((check, severity) \<notin> set enumerated_pairs \<longrightarrow>
      (\<exists>e. explain check severity = Inl e \<and> is_LookupError e))"
proof (cases "check \<in> {''duplicates'', ''pk_duplicates'', ''aggregation'', ''join_risk''}")
  case False
  then have "(check, severity) \<notin> set enumerated_pairs"
    by (auto simp: enumerated_pairs_def)
  with explain_unknown_check [OF False] show ?thesis by simp
next
  case True
  then consider "check = ''duplicates''" | "check = ''pk_duplicates''"
    | "check = ''aggregation''" | "check = ''join_risk''" by auto
  then show ?thesis
  proof cases
    case 1 then show ?thesis by (simp add: explain_duplicates enumerated_pairs_def)
  next
    case 2 then show ?thesis by (simp add: explain_pk_duplicates enumerated_pairs_def)
  next
    case 3 then show ?thesis by (simp add: explain_aggregation enumerated_pairs_def)
  next
    case 4 then show ?thesis by (simp add: explain_join_risk enumerated_pairs_def)
  qed
qed

theorem explain_total_on_table_witness:
  "(''join_risk'', ''MEDIUM'') \<in> set enumerated_pairs
   \<and> explain ''join_risk'' ''MEDIUM'' =
       Inr (''Moderate risk of join inflation.'',
            ''Some duplication exists at the key level.'',
            ''Review joins to many-side tables.'')
   \<and> (''join_risk'', ''PASS'') \<notin> set enumerated_pairs
   \<and> explain ''join_risk'' ''PASS'' = Inl KeyError
   \<and> (''nulls'', ''PASS'') \<notin> set enumerated_pairs
   \<and> explain ''nulls'' ''PASS'' = Inl KeyError"
  using explain_total_on_table [of "''join_risk''" "''MEDIUM''"]
    explain_total_on_table [of "''join_risk''" "''PASS''"]
    explain_total_on_table [of "''nulls''" "''PASS''"]
  by (simp add: enumerated_pairs_def explain_def dict_getitem_def messages_def)


subsection \<open>Counting duplicates\<close>

lemma length_duplicated_from: "length (duplicated_from seen xs) = length xs"
  by (induction xs arbitrary: seen) simp_all

lemma nth_duplicated_from:
  "i < length xs \<Longrightarrow>
     duplicated_from seen xs ! i \<longleftrightarrow> xs ! i \<in> set seen \<or> (\<exists>j<i. xs ! j = xs ! i)"
proof (induction xs arbitrary: seen i)
  case Nil
  then show ?case by simp
next
  case (Cons x xs)
  show ?case
  proof (cases i)
    case 0
    then show ?thesis by simp
  next
    case (Suc k)
    with Cons.prems have k: "k < length xs" by simp
    have "(\<exists>j<Suc k. (x # xs) ! j = xs ! k) \<longleftrightarrow> x = xs ! k \<or> (\<exists>j<k. xs ! j = xs ! k)"
      by (auto simp: less_Suc_eq_0_disj)
    with Cons.IH [OF k, of "x # seen"] Suc show ?thesis by auto
  qed
qed

lemma count_true_card: "count_true bs = card {i. i < length bs \<and> bs ! i}"
  by (simp add: count_true_def length_filter_conv_card)

lemma count_duplicated_index:
  "count_true (duplicated xs) = card {i. i < length xs \<and> (\<exists>j<i. xs ! j = xs ! i)}"
proof -
  have "{i. i < length (duplicated xs) \<and> duplicated xs ! i}
      = {i. i < length xs \<and> (\<exists>j<i. xs ! j = xs ! i)}"
    by (auto simp: duplicated_def length_duplicated_from nth_duplicated_from)
  then show ?thesis by (simp add: count_true_card)
qed

lemma count_duplicated_from_card:
  "count_true (duplicated_from seen xs) + card (set seen \<union> set xs) = length xs + card (set seen)"
proof (induction xs arbitrary: seen)
  case Nil
  then show ?case by (simp add: count_true_def)
next
  case (Cons x xs)
  have eq: "set seen \<union> set (x # xs) = set (x # seen) \<union> set xs" by auto
  show ?case
  proof (cases "x \<in> set seen")
    case True
    then have "card (set (x # seen)) = card (set seen)" by (simp add: insert_absorb)
    with Cons.IH [of "x # seen"] True show ?thesis
      unfolding eq by (simp add: count_true_def)
  next
    case False
    then have "card (set (x # seen)) = Suc (card (set seen))" by simp
    with Cons.IH [of "x # seen"] False show ?thesis
      unfolding eq by (simp add: count_true_def)
  qed
qed

lemma count_duplicated_card: "count_true (duplicated xs) + card (set xs) = length xs"
  using count_duplicated_from_card [of "[]" xs] by (simp add: duplicated_def)

lemma count_duplicated_distinct: "distinct xs \<Longrightarrow> count_true (duplicated xs) = 0"
  using count_duplicated_card [of xs] by (simp add: distinct_card)

lemma count_duplicated_insert_copy:
  assumes "distinct xs" and "r \<in> set xs"
  shows "count_true (duplicated (take k xs @ r # drop k xs)) = 1"
proof -
  have "set (take k xs) \<union> set (drop k xs) = set xs"
    by (metis append_take_drop_id set_append)
  then have "set (take k xs @ r # drop k xs) = set xs"
    using assms(2) by auto
  then have "card (set (take k xs @ r # drop k xs)) = length xs"
    using assms(1) by (simp add: distinct_card)
  with count_duplicated_card [of "take k xs @ r # drop k xs"] show ?thesis by simp
qed

text \<open>
  Claim C6. The row-duplicate count is the number of rows that equal an earlier row in
  every column; the status is PASS when the count is 0 and WARNING otherwise. A frame
  without duplicate rows has count 0, and inserting a copy of one of its rows, at any
  position, gives count 1 and WARNING.
\<close>

theorem row_duplicate_check:
  "duplicate_count df = card {i. i < shape0 df \<and> (\<exists>j<i. data df ! j = data df ! i)}
   \<and> (duplicate_count df = 0 \<longrightarrow> dup_status df = ''PASS'')
   \<and> (duplicate_count df \<noteq> 0 \<longrightarrow> dup_status df = ''WARNING'')
   \<and> (distinct (data df) \<longrightarrow> duplicate_count df = 0)
   \<and> (distinct (data df) \<and> r \<in> set (data df) \<longrightarrow>
        duplicate_count (insert_row k r df) = 1 \<and> dup_status (insert_row k r df) = ''WARNING'')"
  by (simp add: duplicate_count_def dup_status_def shape0_def insert_row_def
      count_duplicated_index [symmetric] count_duplicated_distinct count_duplicated_insert_copy)

theorem row_duplicate_check_witness:
  "distinct (data \<lparr>columns = [''id'', ''city''], dtypes = [Int64, Object],
       data = [[Num (1::int), Str ''Pune''], [Num 2, Str ''Agra'']]\<rparr>)
   \<and> [Num (1::int), Str ''Pune''] \<in> set (data \<lparr>columns = [''id'', ''city''],
       dtypes = [Int64, Object], data = [[Num 1, Str ''Pune''], [Num 2, Str ''Agra'']]\<rparr>)
   \<and> duplicate_count \<lparr>columns = [''id'', ''city''], dtypes = [Int64, Object],
       data = [[Num (1::int), Str ''Pune''], [Num 2, Str ''Agra'']]\<rparr> = 0
   \<and> dup_status \<lparr>columns = [''id'', ''city''], dtypes = [Int64, Object],
       data = [[Num (1::int), Str ''Pune''], [Num 2, Str ''Agra'']]\<rparr> = ''PASS''
   \<and> insert_row 2 [Num 1, Str ''Pune''] \<lparr>columns = [''id'', ''city''],
       dtypes = [Int64, Object], data = [[Num (1::int), Str ''Pune''], [Num 2, Str ''Agra'']]\<rparr>
     = \<lparr>columns = [''id'', ''city''], dtypes = [Int64, Object],
       data = [[Num 1, Str ''Pune''], [Num 2, Str ''Agra''], [Num 1, Str ''Pune'']]\<rparr>
   \<and> duplicate_count \<lparr>columns = [''id'', ''city''], dtypes = [Int64, Object],
       data = [[Num (1::int), Str ''Pune''], [Num 2, Str ''Agra''], [Num 1, Str ''Pune'']]\<rparr> = 1
   \<and> dup_status \<lparr>columns = [''id'', ''city''], dtypes = [Int64, Object],
       data = [[Num (1::int), Str ''Pune''], [Num 2, Str ''Agra''], [Num 1, Str ''Pune'']]\<rparr>
     = ''WARNING''"
  using row_duplicate_check [THEN conjunct2, of "\<lparr>columns = [''id'', ''city''], dtypes = [Int64, Object],
       data = [[Num (1::int), Str ''Pune''], [Num 2, Str ''Agra'']]\<rparr>"
      "[Num 1, Str ''Pune'']" 2]
  by (simp add: insert_row_def)


subsection \<open>Columns by name and by position\<close>

lemma index_of_mem: "x \<in> set xs \<Longrightarrow> \<exists>i. index_of x xs = Some i \<and> i < length xs \<and> xs ! i = x"
  by (induction xs) auto

lemma index_of_nth: "distinct xs \<Longrightarrow> i < length xs \<Longrightarrow> index_of (xs ! i) xs = Some i"
proof (induction xs arbitrary: i)
  case Nil
  then show ?case by simp
next
  case (Cons y ys)
  show ?case
  proof (cases i)
    case 0
    then show ?thesis by simp
  next
    case (Suc k)
    with Cons.prems have "k < length ys" "ys ! k \<noteq> y" "distinct ys" by auto
    with Cons.IH [of k] Suc show ?thesis by simp
  qed
qed

lemma wf_frame_row: "wf_frame df \<Longrightarrow> r \<in> set (data df) \<Longrightarrow> length r = length (columns df)"
proof -
  assume "wf_frame df" and "r \<in> set (data df)"
  then have "list_all2 cell_has_dtype (dtypes df) r" and "length (dtypes df) = length (columns df)"
    by (simp_all add: wf_frame_def list_all_iff)
  then show ?thesis using list_all2_lengthD by fastforce
qed
lemma zip_as_map:
  assumes "length bs = length xs"
  shows "zip xs bs = map (\<lambda>i. (xs ! i, bs ! i)) [0..<length xs]"
  using assms by (intro nth_equalityI) simp_all

lemma masked_names_pred:
  assumes "distinct xs" and "length ts = length xs"
  shows "map fst (filter (\<lambda>(c, t). P t) (zip xs ts))
       = filter (\<lambda>c. case index_of c xs of None \<Rightarrow> False | Some i \<Rightarrow> P (ts ! i)) xs"
proof -
  let ?n = "length xs"
  let ?P = "\<lambda>c. case index_of c xs of None \<Rightarrow> False | Some i \<Rightarrow> P (ts ! i)"
  have "map fst (filter (\<lambda>(c, t). P t) (zip xs ts))
      = map ((!) xs) (filter (\<lambda>i. P (ts ! i)) [0..<?n])"
    unfolding zip_as_map [OF assms(2)] by (simp add: filter_map comp_def)
  also have "filter (\<lambda>i. P (ts ! i)) [0..<?n] = filter (\<lambda>i. ?P (xs ! i)) [0..<?n]"
  proof (rule filter_cong [OF refl])
    fix i assume "i \<in> set [0..<?n]"
    then have "i < ?n" by simp
    then show "P (ts ! i) = ?P (xs ! i)" by (simp add: index_of_nth [OF assms(1)])
  qed
  also have "map ((!) xs) (filter (\<lambda>i. ?P (xs ! i)) [0..<?n]) = filter ?P (map ((!) xs) [0..<?n])"
    by (simp add: filter_map comp_def)
  also have "map ((!) xs) [0..<?n] = xs" by (rule map_nth)
  finally show ?thesis .
qed

lemma masked_names:
  assumes "distinct xs" and "length bs = length xs"
  shows "map fst (filter snd (zip xs bs))
       = filter (\<lambda>c. case index_of c xs of None \<Rightarrow> False | Some i \<Rightarrow> bs ! i) xs"
proof -
  have "filter snd (zip xs bs) = filter (\<lambda>(c, t). t) (zip xs bs)"
    by (rule filter_cong) auto
  then show ?thesis using masked_names_pred [OF assms, of "\<lambda>b. b"] by simp
qed
lemma getitem_in_columns:
  assumes "c \<in> set (columns df)"
  obtains i where "index_of c (columns df) = Some i" and "i < length (columns df)"
    and "columns df ! i = c" and "getitem df c = Inr (column_at df i)"
proof -
  from index_of_mem [OF assms] obtain i
    where i: "index_of c (columns df) = Some i" "i < length (columns df)" "columns df ! i = c"
    by blast
  then have "getitem df c = Inr (column_at df i)" by (simp add: getitem_def)
  with i that show thesis by blast
qed

lemma length_column_at: "length (column_at df i) = shape0 df"
  by (simp add: column_at_def shape0_def)

subsection \<open>Null scan\<close>

lemma isnull_iff: "isnull c \<longleftrightarrow> c = NaN"
  by (cases c) simp_all

lemma list_ex_isnull: "list_ex isnull s \<longleftrightarrow> NaN \<in> set s"
  by (auto simp: list_ex_iff isnull_iff)

lemma null_columns_filter:
  assumes "distinct (columns df)"
  shows "null_columns df
       = filter (\<lambda>c. \<exists>s. getitem df c = Inr s \<and> NaN \<in> set s) (columns df)"
proof -
  have len: "length (isnull_any df) = length (columns df)"
    by (simp add: isnull_any_def)
  have "null_columns df = filter (\<lambda>c. case index_of c (columns df) of None \<Rightarrow> False
          | Some i \<Rightarrow> isnull_any df ! i) (columns df)"
    unfolding null_columns_def by (rule masked_names [OF assms len])
  also have "\<dots> = filter (\<lambda>c. \<exists>s. getitem df c = Inr s \<and> NaN \<in> set s) (columns df)"
  proof (rule filter_cong [OF refl])
    fix c assume "c \<in> set (columns df)"
    then obtain i where i: "index_of c (columns df) = Some i" "i < length (columns df)"
      and g: "getitem df c = Inr (column_at df i)"
      by (rule getitem_in_columns)
    have "isnull_any df ! i \<longleftrightarrow> NaN \<in> set (column_at df i)"
      using i(2) by (simp add: isnull_any_def list_ex_isnull)
    then show "(case index_of c (columns df) of None \<Rightarrow> False | Some i \<Rightarrow> isnull_any df ! i)
        \<longleftrightarrow> (\<exists>s. getitem df c = Inr s \<and> NaN \<in> set s)"
      by (simp add: i(1) g)
  qed
  finally show ?thesis .
qed

lemma filter_eq_single:
  assumes "distinct xs" and "b \<in> set xs"
  shows "filter (\<lambda>c. c = b) xs = [b]"
  using assms
proof (induction xs)
  case Nil
  then show ?case by simp
next
  case (Cons x xs)
  show ?case
  proof (cases "x = b")
    case True
    with Cons.prems have "b \<notin> set xs" by simp
    then have "filter (\<lambda>c. c = b) xs = []" by (auto simp: filter_empty_conv)
    with True show ?thesis by simp
  next
    case False
    with Cons show ?thesis by simp
  qed
qed

text \<open>
  Claim C8. The null-column scan returns the names of the columns whose series holds a
  missing value, in the order of the frame's columns. When the column \<open>B\<close> is the only
  one with a missing value the result is \<open>[B]\<close>, and when no column has one it is empty.
\<close>

theorem null_column_scan:
  assumes "wf_frame df"
  shows "null_columns df = filter (\<lambda>c. \<exists>s. getitem df c = Inr s \<and> NaN \<in> set s) (columns df)
    \<and> (''B'' \<in> set (columns df)
         \<and> (\<forall>c\<in>set (columns df). (\<exists>s. getitem df c = Inr s \<and> NaN \<in> set s) \<longleftrightarrow> c = ''B'')
        \<longrightarrow> null_columns df = [''B''])
    \<and> ((\<forall>c\<in>set (columns df). \<forall>s. getitem df c = Inr s \<longrightarrow> NaN \<notin> set s)
        \<longrightarrow> null_columns df = [])"
proof -
  let ?has = "\<lambda>c. \<exists>s. getitem df c = Inr s \<and> NaN \<in> set s"
  have d: "distinct (columns df)" using assms by (simp add: wf_frame_def)
  note eq = null_columns_filter [OF d]
  have one: "null_columns df = [''B'']"
    if b: "''B'' \<in> set (columns df)" and only: "\<forall>c\<in>set (columns df). ?has c \<longleftrightarrow> c = ''B''"
  proof -
    have "filter ?has (columns df) = filter (\<lambda>c. c = ''B'') (columns df)"
      by (rule filter_cong [OF refl]) (use only in blast)
    with eq filter_eq_single [OF d b] show ?thesis by simp
  qed
  have none: "null_columns df = []"
    if "\<forall>c\<in>set (columns df). \<forall>s. getitem df c = Inr s \<longrightarrow> NaN \<notin> set s"
  proof -
    have "filter ?has (columns df) = []"
      unfolding filter_empty_conv using that by blast
    with eq show ?thesis by simp
  qed
  from eq one none show ?thesis by blast
qed

theorem null_column_scan_witness:
  "wf_frame sample_frame
   \<and> ''B'' \<in> set (columns sample_frame)
   \<and> getitem sample_frame ''B'' = Inr [Num 5, NaN, Num 7]
   \<and> null_columns sample_frame = [''B'']
   \<and> wf_frame complete_frame
   \<and> getitem complete_frame ''B'' = Inr [Num 5, Num 6, Num 7]
   \<and> null_columns complete_frame = []"
proof -
  have w1: "wf_frame sample_frame"
    by (simp add: wf_frame_def sample_frame_def)
  have w2: "wf_frame complete_frame"
    by (simp add: wf_frame_def complete_frame_def)
  have b: "''B'' \<in> set (columns sample_frame)"
    by (simp add: sample_frame_def)
  have only: "\<forall>c\<in>set (columns sample_frame).
         (\<exists>s. getitem sample_frame c = Inr s \<and> NaN \<in> set s) \<longleftrightarrow> c = ''B''"
    by (simp add: sample_frame_def getitem_def column_at_def)
  have full: "\<forall>c\<in>set (columns complete_frame). \<forall>s. getitem complete_frame c = Inr s \<longrightarrow> NaN \<notin> set s"
    by (simp add: complete_frame_def getitem_def column_at_def)
  from null_column_scan [OF w1] b only have "null_columns sample_frame = [''B'']" by blast
  moreover from null_column_scan [OF w2] full have "null_columns complete_frame = []" by blast
  moreover have "getitem sample_frame ''B'' = Inr [Num 5, NaN, Num 7]"
    by (simp add: sample_frame_def getitem_def column_at_def)
  moreover have "getitem complete_frame ''B'' = Inr [Num 5, Num 6, Num 7]"
    by (simp add: complete_frame_def getitem_def column_at_def)
  ultimately show ?thesis using w1 w2 b by blast
qed


subsection \<open>Negative scan\<close>

lemma select_dtypes_number_filter:
  assumes "wf_frame df"
  shows "select_dtypes_number df
       = filter (\<lambda>c. \<exists>t. column_dtype df c = Some t \<and> is_number t) (columns df)"
proof -
  from assms have d: "distinct (columns df)" and l: "length (dtypes df) = length (columns df)"
    by (simp_all add: wf_frame_def)
  have "select_dtypes_number df
      = filter (\<lambda>c. case index_of c (columns df) of None \<Rightarrow> False
                     | Some i \<Rightarrow> is_number (dtypes df ! i)) (columns df)"
    unfolding select_dtypes_number_def by (rule masked_names_pred [OF d l])
  also have "\<dots> = filter (\<lambda>c. \<exists>t. column_dtype df c = Some t \<and> is_number t) (columns df)"
    by (rule filter_cong [OF refl]) (simp add: column_dtype_def split: option.split)
  finally show ?thesis .
qed

lemma column_cells_typed:
  assumes "wf_frame df" and "i < length (columns df)" and "c \<in> set (column_at df i)"
  shows "cell_has_dtype (dtypes df ! i) c"
proof -
  from assms(3) obtain r where r: "r \<in> set (data df)" and c: "c = r ! i"
    by (auto simp: column_at_def)
  from assms(1) r have "list_all2 cell_has_dtype (dtypes df) r"
    by (simp add: wf_frame_def list_all_iff)
  moreover from assms(1,2) have "i < length (dtypes df)" by (simp add: wf_frame_def)
  ultimately show ?thesis unfolding c by (rule list_all2_nthD)
qed

lemma lt_zero_numeric:
  assumes "is_number t" and "cell_has_dtype t c"
  shows "lt_zero c = Inr (\<exists>x. c = Num x \<and> x < 0)"
  using assms by (cases t; cases c) simp_all

lemma series_lt_zero_numeric:
  assumes "is_number t" and "\<forall>c\<in>set s. cell_has_dtype t c"
  shows "series_lt_zero s = Inr (map (\<lambda>c. \<exists>x. c = Num x \<and> x < 0) s)"
  using assms(2)
proof (induction s)
  case Nil
  then show ?case by simp
next
  case (Cons c s)
  from Cons.prems have "cell_has_dtype t c" by simp
  then have "lt_zero c = Inr (\<exists>x. c = Num x \<and> x < 0)"
    by (rule lt_zero_numeric [OF assms(1)])
  moreover from Cons have "series_lt_zero s = Inr (map (\<lambda>c. \<exists>x. c = Num x \<and> x < 0) s)"
    by simp
  ultimately show ?case by simp
qed

lemma any_negative: "list_ex (\<lambda>b. b) (map (\<lambda>c. \<exists>x. c = Num x \<and> x < 0) s) \<longleftrightarrow> (\<exists>x. Num x \<in> set s \<and> x < 0)"
  by (auto simp: list_ex_iff)

lemma negative_scan_filter:
  assumes "wf_frame df"
    and "\<forall>c\<in>set cs. c \<in> set (columns df) \<and> (\<exists>t. column_dtype df c = Some t \<and> is_number t)"
  shows "negative_scan df cs
       = Inr (filter (\<lambda>c. \<exists>s x. getitem df c = Inr s \<and> Num x \<in> set s \<and> x < 0) cs)"
  using assms(2)
proof (induction cs)
  case Nil
  then show ?case by simp
next
  case (Cons c cs)
  from Cons.prems have mem: "c \<in> set (columns df)"
    and num: "\<exists>t. column_dtype df c = Some t \<and> is_number t" by simp_all
  from mem obtain i where i: "index_of c (columns df) = Some i" "i < length (columns df)"
    and g: "getitem df c = Inr (column_at df i)"
    by (rule getitem_in_columns)
  from num i(1) have n: "is_number (dtypes df ! i)" by (simp add: column_dtype_def)
  have "\<forall>x\<in>set (column_at df i). cell_has_dtype (dtypes df ! i) x"
    using column_cells_typed [OF assms(1) i(2)] by blast
  then have s: "series_lt_zero (column_at df i)
      = Inr (map (\<lambda>c. \<exists>x. c = Num x \<and> x < 0) (column_at df i))"
    by (rule series_lt_zero_numeric [OF n])
  from Cons have rest: "negative_scan df cs
      = Inr (filter (\<lambda>c. \<exists>s x. getitem df c = Inr s \<and> Num x \<in> set s \<and> x < 0) cs)"
    by simp
  show ?case by (simp add: g s rest any_negative)
qed

text \<open>
  Claim C9. On a frame read from a CSV file the negative scan raises nothing and
  returns, in column order, the names of the columns of a numeric dtype whose series
  holds a number below zero. A column of another dtype is never in the result,
  whatever its cells hold.
\<close>

theorem negative_value_scan:
  assumes "wf_frame df"
  shows "negative_columns df
       = Inr (filter (\<lambda>c. (\<exists>t. column_dtype df c = Some t \<and> is_number t)
                          \<and> (\<exists>s x. getitem df c = Inr s \<and> Num x \<in> set s \<and> x < 0)) (columns df))
    \<and> (\<forall>c t names. column_dtype df c = Some t \<and> \<not> is_number t
          \<and> negative_columns df = Inr names \<longrightarrow> c \<notin> set names)"
proof -
  let ?num = "\<lambda>c. \<exists>t. column_dtype df c = Some t \<and> is_number t"
  let ?neg = "\<lambda>c. \<exists>s x. getitem df c = Inr s \<and> Num x \<in> set s \<and> x < 0"
  have sel: "select_dtypes_number df = filter ?num (columns df)"
    by (rule select_dtypes_number_filter [OF assms])
  have "\<forall>c\<in>set (filter ?num (columns df)). c \<in> set (columns df) \<and> ?num c" by simp
  then have "negative_scan df (filter ?num (columns df)) = Inr (filter ?neg (filter ?num (columns df)))"
    by (rule negative_scan_filter [OF assms])
  then have eq: "negative_columns df = Inr (filter (\<lambda>c. ?num c \<and> ?neg c) (columns df))"
    by (simp add: negative_columns_def sel)
  have "c \<notin> set names"
    if "column_dtype df c = Some t" "\<not> is_number t" "negative_columns df = Inr names" for c t names
  proof -
    from that(3) eq have "names = filter (\<lambda>c. ?num c \<and> ?neg c) (columns df)" by simp
    with that(1,2) show ?thesis by auto
  qed
  with eq show ?thesis by blast
qed

theorem negative_value_scan_witness:
  "wf_frame sample_frame
   \<and> column_dtype sample_frame ''note'' = Some Object \<and> \<not> is_number Object
   \<and> getitem sample_frame ''note'' = Inr [Str ''-5'', Str ''x'', Str ''-1'']
   \<and> negative_columns sample_frame = Inr [''amount'']
   \<and> ''note'' \<notin> set [''amount'']"
proof -
  have w: "wf_frame sample_frame"
    by (simp add: wf_frame_def sample_frame_def)
  have t: "column_dtype sample_frame ''note'' = Some Object"
    by (simp add: sample_frame_def column_dtype_def)
  have g: "getitem sample_frame ''note'' = Inr [Str ''-5'', Str ''x'', Str ''-1'']"
    by (simp add: sample_frame_def getitem_def column_at_def)
  have n: "negative_columns sample_frame = Inr [''amount'']"
    by (simp add: negative_columns_def select_dtypes_number_def sample_frame_def
        getitem_def column_at_def)
  from negative_value_scan [OF w] t n have "''note'' \<notin> set [''amount'']"
    by (meson is_number.simps(4))
  with w t g n show ?thesis by simp
qed


subsection \<open>Primary-key duplicates\<close>

lemma nunique_full:
  assumes "nunique s = length s"
  shows "distinct s" and "NaN \<notin> set s"
proof -
  let ?f = "filter (\<lambda>c. c \<noteq> NaN) s"
  have le1: "length (remdups ?f) \<le> length ?f" by (rule length_remdups_leq)
  have le2: "length ?f \<le> length s" by (rule length_filter_le)
  from assms have eq: "length (remdups ?f) = length s" by (simp add: nunique_def)
  from le1 le2 eq have a: "length (remdups ?f) = length ?f" and b: "length ?f = length s"
    by linarith+
  have all: "\<forall>x\<in>set s. x \<noteq> NaN"
  proof (rule ccontr)
    assume "\<not> (\<forall>x\<in>set s. x \<noteq> NaN)"
    then obtain x where "x \<in> set s" "\<not> x \<noteq> NaN" by blast
    then have "length ?f < length s" by (rule length_filter_less)
    with b show False by simp
  qed
  then have f: "?f = s" by (simp add: filter_id_conv)
  from a have "remdups ?f = ?f" by (simp only: length_remdups_eq)
  then have "distinct ?f" by (simp only: remdups_id_iff_distinct)
  with f show "distinct s" by simp
  from all show "NaN \<notin> set s" by blast
qed

lemma count_duplicated_collapse:
  assumes "distinct s" and "i < length s" and "j < length s" and "i \<noteq> j"
  shows "count_true (duplicated (s[i := s ! j])) = 1"
proof -
  have "set (s[i := s ! j]) = set s - {s ! i}"
  proof
    show "set (s[i := s ! j]) \<subseteq> set s - {s ! i}"
    proof
      fix x assume "x \<in> set (s[i := s ! j])"
      then obtain k where k: "k < length s" "x = s[i := s ! j] ! k"
        by (auto simp: in_set_conv_nth)
      show "x \<in> set s - {s ! i}"
      proof (cases "k = i")
        case True
        with k assms show ?thesis by (auto simp: nth_eq_iff_index_eq)
      next
        case False
        with k assms show ?thesis by (auto simp: nth_eq_iff_index_eq)
      qed
    qed
    show "set s - {s ! i} \<subseteq> set (s[i := s ! j])"
    proof
      fix x assume "x \<in> set s - {s ! i}"
      then obtain k where k: "k < length s" "x = s ! k" "k \<noteq> i"
        by (auto simp: in_set_conv_nth)
      then have "s[i := s ! j] ! k = x" by simp
      with k(1) show "x \<in> set (s[i := s ! j])"
        by (metis length_list_update nth_mem)
    qed
  qed
  moreover have "card (set s - {s ! i}) = length s - 1"
    using assms(1,2) by (simp add: distinct_card)
  ultimately have "card (set (s[i := s ! j])) = length s - 1" by simp
  with count_duplicated_card [of "s[i := s ! j]"] assms(2) show ?thesis by simp
qed

lemma column_at_set_cell:
  assumes "wf_frame df" and "p < length (columns df)"
  shows "column_at (set_cell i p v df) p = (column_at df p)[i := v]"
proof (rule nth_equalityI)
  show "length (column_at (set_cell i p v df) p) = length ((column_at df p)[i := v])"
    by (simp add: column_at_def set_cell_def)
next
  fix k assume "k < length (column_at (set_cell i p v df) p)"
  then have k: "k < length (data df)" by (simp add: column_at_def set_cell_def)
  then have "data df ! k \<in> set (data df)" by simp
  then have "p < length (data df ! k)" using wf_frame_row [OF assms(1)] assms(2) by simp
  with k show "column_at (set_cell i p v df) p ! k = (column_at df p)[i := v] ! k"
    by (cases "k = i") (simp_all add: column_at_def set_cell_def)
qed

lemma getitem_set_cell:
  assumes "wf_frame df" and "index_of c (columns df) = Some p" and "p < length (columns df)"
  shows "getitem (set_cell i p v df) c = Inr ((column_at df p)[i := v])"
  using assms column_at_set_cell [OF assms(1,3)] by (simp add: getitem_def set_cell_def)

text \<open>
  Claim C7. For a key column of the frame, the primary-key duplicate count is the
  number of positions whose value occurred earlier in the column; the status is PASS
  when the count is 0 and WARNING otherwise. When the column has as many distinct
  values as the frame has rows the count is 0; overwriting the key of one row with the
  key of another one then gives count 1 and WARNING.
\<close>

theorem pk_duplicate_check:
  assumes "wf_frame df" and "primary_key \<in> set (columns df)"
  shows "\<exists>s p. getitem df primary_key = Inr s \<and> length s = shape0 df
      \<and> index_of primary_key (columns df) = Some p
      \<and> pk_duplicate_count df primary_key
          = Inr (card {i. i < length s \<and> (\<exists>j<i. s ! j = s ! i)})
      \<and> (pk_duplicate_count df primary_key = Inr 0 \<longrightarrow> pk_status df primary_key = Inr ''PASS'')
      \<and> (pk_duplicate_count df primary_key \<noteq> Inr 0 \<longrightarrow> pk_status df primary_key = Inr ''WARNING'')
      \<and> (nunique s = shape0 df \<longrightarrow>
            pk_duplicate_count df primary_key = Inr 0
            \<and> (\<forall>i j. i < shape0 df \<and> j < shape0 df \<and> i \<noteq> j \<longrightarrow>
                  pk_duplicate_count (set_cell i p (s ! j) df) primary_key = Inr 1
                  \<and> pk_status (set_cell i p (s ! j) df) primary_key = Inr ''WARNING''))"
proof -
  from assms(2) obtain p where p: "index_of primary_key (columns df) = Some p"
      "p < length (columns df)"
    and g: "getitem df primary_key = Inr (column_at df p)"
    by (rule getitem_in_columns)
  let ?s = "column_at df p"
  have len: "length ?s = shape0 df" by (rule length_column_at)
  have cnt: "pk_duplicate_count df primary_key
      = Inr (card {i. i < length ?s \<and> (\<exists>j<i. ?s ! j = ?s ! i)})"
    by (simp add: pk_duplicate_count_def g count_duplicated_index)
  have st0: "pk_duplicate_count df primary_key = Inr 0 \<longrightarrow> pk_status df primary_key = Inr ''PASS''"
    by (simp add: pk_status_def)
  have st1: "pk_duplicate_count df primary_key \<noteq> Inr 0
      \<longrightarrow> pk_status df primary_key = Inr ''WARNING''"
    by (simp add: pk_status_def pk_duplicate_count_def g)
  have uniq: "pk_duplicate_count df primary_key = Inr 0
      \<and> (\<forall>i j. i < shape0 df \<and> j < shape0 df \<and> i \<noteq> j \<longrightarrow>
            pk_duplicate_count (set_cell i p (?s ! j) df) primary_key = Inr 1
            \<and> pk_status (set_cell i p (?s ! j) df) primary_key = Inr ''WARNING'')"
    if "nunique ?s = shape0 df"
  proof -
    from that len have d: "distinct ?s" by (simp add: nunique_full(1))
    then have zero: "pk_duplicate_count df primary_key = Inr 0"
      by (simp add: pk_duplicate_count_def g count_duplicated_distinct)
    have "pk_duplicate_count (set_cell i p (?s ! j) df) primary_key = Inr 1
        \<and> pk_status (set_cell i p (?s ! j) df) primary_key = Inr ''WARNING''"
      if "i < shape0 df" "j < shape0 df" "i \<noteq> j" for i j
    proof -
      have "getitem (set_cell i p (?s ! j) df) primary_key = Inr (?s[i := ?s ! j])"
        by (rule getitem_set_cell [OF assms(1) p])
      moreover have "count_true (duplicated (?s[i := ?s ! j])) = 1"
        using d that len by (intro count_duplicated_collapse) simp_all
      ultimately show ?thesis by (simp add: pk_duplicate_count_def pk_status_def)
    qed
    with zero show ?thesis by blast
  qed
  from g len p(1) cnt st0 st1 uniq show ?thesis by blast
qed

theorem pk_duplicate_check_witness:
  "wf_frame sample_frame \<and> ''order_id'' \<in> set (columns sample_frame)
   \<and> getitem sample_frame ''order_id'' = Inr [Num 1, Num 2, Num 3]
   \<and> nunique [Num 1, Num 2, Num (3::int)] = shape0 sample_frame
   \<and> pk_duplicate_count sample_frame ''order_id'' = Inr 0
   \<and> pk_status sample_frame ''order_id'' = Inr ''PASS''
   \<and> getitem (set_cell 1 0 (Num 1) sample_frame) ''order_id'' = Inr [Num 1, Num 1, Num 3]
   \<and> pk_duplicate_count (set_cell 1 0 (Num 1) sample_frame) ''order_id'' = Inr 1
   \<and> pk_status (set_cell 1 0 (Num 1) sample_frame) ''order_id'' = Inr ''WARNING''"
proof -
  have w: "wf_frame sample_frame"
    by (simp add: wf_frame_def sample_frame_def)
  have m: "''order_id'' \<in> set (columns sample_frame)"
    by (simp add: sample_frame_def)
  have g: "getitem sample_frame ''order_id'' = Inr [Num 1, Num 2, Num 3]"
    by (simp add: sample_frame_def getitem_def column_at_def)
  have ix: "index_of ''order_id'' (columns sample_frame) = Some 0"
    by (simp add: sample_frame_def)
  have n: "nunique [Num 1, Num 2, Num (3::int)] = shape0 sample_frame"
    by (simp add: nunique_def shape0_def sample_frame_def)
  have g': "getitem (set_cell 1 0 (Num 1) sample_frame) ''order_id'' = Inr [Num 1, Num 1, Num 3]"
    by (simp add: sample_frame_def getitem_def column_at_def set_cell_def)
  from pk_duplicate_check [OF w m] g ix n
  have zero: "pk_duplicate_count sample_frame ''order_id'' = Inr 0"
    and pass: "pk_duplicate_count sample_frame ''order_id'' = Inr 0
        \<longrightarrow> pk_status sample_frame ''order_id'' = Inr ''PASS''"
    and coll: "\<forall>i j. i < shape0 sample_frame \<and> j < shape0 sample_frame \<and> i \<noteq> j \<longrightarrow>
        pk_duplicate_count (set_cell i 0 ([Num 1, Num 2, Num 3] ! j) sample_frame) ''order_id''
          = Inr 1
        \<and> pk_status (set_cell i 0 ([Num 1, Num 2, Num 3] ! j) sample_frame) ''order_id''
          = Inr ''WARNING''"
    by auto
  have "(1::nat) < shape0 sample_frame \<and> (0::nat) < shape0 sample_frame \<and> (1::nat) \<noteq> 0"
    by (simp add: shape0_def sample_frame_def)
  with coll have "pk_duplicate_count (set_cell 1 0 ([Num 1, Num 2, Num 3] ! 0) sample_frame)
        ''order_id'' = Inr 1
      \<and> pk_status (set_cell 1 0 ([Num 1, Num 2, Num 3] ! 0) sample_frame) ''order_id''
        = Inr ''WARNING''"
    by blast
  then have "pk_duplicate_count (set_cell 1 0 (Num 1) sample_frame) ''order_id'' = Inr 1
      \<and> pk_status (set_cell 1 0 (Num 1) sample_frame) ''order_id'' = Inr ''WARNING''"
    by simp
  with w m g n zero pass g' show ?thesis by simp
qed


subsection \<open>The context string\<close>

text \<open>
  Claim C10. The context string consists of seventeen lines, each ended by a line
  feed. When the list of null columns is empty its line, the eleventh, reads
  \<open>- Columns with nulls: None\<close>; when the list of negative columns is empty its line,
  the twelfth, reads \<open>- Columns with negative values: None\<close>. So the line is there and the
  empty list is rendered as \<open>None\<close>, not as the empty string.
\<close>

theorem context_renders_None:
  "\<exists>ls. build_gpt_context df dup_count pk_dup_count null_cols negative_cols agg_st join_st
          = concat (map (\<lambda>l. l @ newline) ls)
      \<and> length ls = 17
      \<and> (null_cols = [] \<longrightarrow> ls ! 10 = ''- Columns with nulls: None'')
      \<and> (negative_cols = [] \<longrightarrow> ls ! 11 = ''- Columns with negative values: None'')
      \<and> (null_cols = [] \<longrightarrow> (\<exists>pre post.
            build_gpt_context df dup_count pk_dup_count null_cols negative_cols agg_st join_st
              = pre @ newline @ ''- Columns with nulls: None'' @ newline @ post))
      \<and> (negative_cols = [] \<longrightarrow> (\<exists>pre post.
            build_gpt_context df dup_count pk_dup_count null_cols negative_cols agg_st join_st
              = pre @ newline @ ''- Columns with negative values: None'' @ newline @ post))"
proof -
  let ?ls = "['''',
        ''This document is a SQL report exported as CSV.'',
        '''',
        ''Dataset overview:'',
        ''- Rows: '' @ str_nat (shape0 df),
        ''- Columns: '' @ str_nat (shape1 df),
        '''',
        ''Validation findings:'',
        ''- Duplicate rows: '' @ str_nat dup_count,
        ''- Primary key duplicates: '' @ str_nat pk_dup_count,
        ''- Columns with nulls: '' @ render_names null_cols,
        ''- Columns with negative values: '' @ render_names negative_cols,
        ''- Aggregation sanity status: '' @ agg_st,
        ''- Join inflation risk: '' @ join_st,
        '''',
        ''Answer strictly using this information.'',
        ''If unsure, say so clearly.'']"
  let ?out = "build_gpt_context df dup_count pk_dup_count null_cols negative_cols agg_st join_st"
  have out: "?out = concat (map (\<lambda>l. l @ newline) ?ls)"
    by (simp only: build_gpt_context_def)
  have len: "length ?ls = 17" by simp
  have l10: "?ls ! 10 = ''- Columns with nulls: '' @ render_names null_cols"
    and l11: "?ls ! 11 = ''- Columns with negative values: '' @ render_names negative_cols"
    by simp_all
  have none: "render_names [] = ''None''" by (simp add: render_names_def)
  have split10: "?out = concat (map (\<lambda>l. l @ newline) (take 9 ?ls)) @ (?ls ! 9)
        @ newline @ (?ls ! 10) @ newline @ concat (map (\<lambda>l. l @ newline) (drop 11 ?ls))"
    unfolding out by simp
  have split11: "?out = concat (map (\<lambda>l. l @ newline) (take 10 ?ls)) @ (?ls ! 10)
        @ newline @ (?ls ! 11) @ newline @ concat (map (\<lambda>l. l @ newline) (drop 12 ?ls))"
    unfolding out by simp
  have sub10: "\<exists>pre post. ?out = pre @ newline @ ''- Columns with nulls: None'' @ newline @ post"
    if "null_cols = []"
  proof -
    from that l10 none have "?ls ! 10 = ''- Columns with nulls: None''" by simp
    with split10 have "?out = (concat (map (\<lambda>l. l @ newline) (take 9 ?ls)) @ (?ls ! 9))
        @ newline @ ''- Columns with nulls: None'' @ newline
        @ concat (map (\<lambda>l. l @ newline) (drop 11 ?ls))"
      by (simp only: append_assoc)
    then show ?thesis by blast
  qed
  have sub11: "\<exists>pre post. ?out = pre @ newline @ ''- Columns with negative values: None''
        @ newline @ post"
    if "negative_cols = []"
  proof -
    from that l11 none have "?ls ! 11 = ''- Columns with negative values: None''" by simp
    with split11 have "?out = (concat (map (\<lambda>l. l @ newline) (take 10 ?ls)) @ (?ls ! 10))
        @ newline @ ''- Columns with negative values: None'' @ newline
        @ concat (map (\<lambda>l. l @ newline) (drop 12 ?ls))"
      by (simp only: append_assoc)
    then show ?thesis by blast
  qed
  have a10: "null_cols = [] \<longrightarrow> ?ls ! 10 = ''- Columns with nulls: None''"
    using l10 none by simp
  have a11: "negative_cols = [] \<longrightarrow> ?ls ! 11 = ''- Columns with negative values: None''"
    using l11 none by simp
  show ?thesis
    apply (rule exI [of _ ?ls])
    using out len a10 a11 sub10 sub11 by blast
qed

theorem context_renders_None_witness:
  "([] :: string list) = []
   \<and> (\<exists>ls. build_gpt_context complete_frame 0 0 [] [] ''PASS'' ''LOW''
            = concat (map (\<lambda>l. l @ newline) ls)
        \<and> length ls = 17
        \<and> ls ! 10 = ''- Columns with nulls: None''
        \<and> ls ! 11 = ''- Columns with negative values: None'')"
proof -
  from context_renders_None [of complete_frame 0 0 "[]" "[]" "''PASS''" "''LOW''"]
  obtain ls where "build_gpt_context complete_frame 0 0 [] [] ''PASS'' ''LOW''
        = concat (map (\<lambda>l. l @ newline) ls)"
    and "length ls = 17"
    and "([] :: string list) = [] \<longrightarrow> ls ! 10 = ''- Columns with nulls: None''"
    and "([] :: string list) = [] \<longrightarrow> ls ! 11 = ''- Columns with negative values: None''"
    by blast
  then show ?thesis by blast
qed

subsection \<open>The question box\<close>

lemma py_strip_empty_iff: "py_strip q = [] \<longleftrightarrow> (\<forall>c\<in>set q. is_space c)"
proof
  assume "py_strip q = []"
  then have "dropWhile is_space (rev (dropWhile is_space q)) = []"
    by (simp add: py_strip_def)
  then have all: "\<forall>c\<in>set (dropWhile is_space q). is_space c"
    by (simp add: dropWhile_eq_Nil_conv)
  show "\<forall>c\<in>set q. is_space c"
  proof (cases "dropWhile is_space q")
    case Nil
    then show ?thesis by (simp add: dropWhile_eq_Nil_conv)
  next
    case (Cons y ys)
    then have "\<not> is_space y" using hd_dropWhile [of is_space q] by simp
    moreover from Cons all have "is_space y" by simp
    ultimately show ?thesis by simp
  qed
next
  assume "\<forall>c\<in>set q. is_space c"
  then show "py_strip q = []" by (auto simp: py_strip_def dest: set_dropWhileD)
qed

text \<open>
  Claim C4. Without a credential (\<open>None\<close>, or the empty string, which Python also
  takes for false) the handler shows the configuration error and calls nothing. With
  a credential and a question of white space only it shows the warning, a different
  message, and calls nothing. The completion service is called only with a
  credential and a question that holds a character other than white space.
\<close>

theorem ask_short_circuits:
  "((api_key = None \<or> api_key = Some []) \<longrightarrow>
      ask_handler api_key user_question df v = Inr (St_error key_missing_message)
      \<and> \<not> issues_call (ask_handler api_key user_question df v))
   \<and> ((\<exists>k. api_key = Some k \<and> k \<noteq> []) \<and> (\<forall>c\<in>set user_question. is_space c) \<longrightarrow>
        ask_handler api_key user_question df v = Inr (St_warning ''Please enter a question.'')
        \<and> \<not> issues_call (ask_handler api_key user_question df v))
   \<and> (issues_call (ask_handler api_key user_question df v) \<longrightarrow>
        (\<exists>k. api_key = Some k \<and> k \<noteq> []) \<and> (\<exists>c\<in>set user_question. \<not> is_space c))
   \<and> St_error key_missing_message \<noteq> St_warning ''Please enter a question.''"
proof -
  have a: "ask_handler api_key user_question df v = Inr (St_error key_missing_message)"
    if "api_key = None \<or> api_key = Some []"
    using that by (auto simp: ask_handler_def)
  have b: "ask_handler api_key user_question df v = Inr (St_warning ''Please enter a question.'')"
    if "\<exists>k. api_key = Some k \<and> k \<noteq> []" and "\<forall>c\<in>set user_question. is_space c"
  proof -
    from that(2) have "py_strip user_question = []" by (simp only: py_strip_empty_iff)
    with that(1) show ?thesis by (auto simp: ask_handler_def)
  qed
  have c: "(\<exists>k. api_key = Some k \<and> k \<noteq> []) \<and> (\<exists>c\<in>set user_question. \<not> is_space c)"
    if call: "issues_call (ask_handler api_key user_question df v)"
  proof -
    have k: "\<exists>k. api_key = Some k \<and> k \<noteq> []"
    proof (rule ccontr)
      assume "\<not> (\<exists>k. api_key = Some k \<and> k \<noteq> [])"
      then have "api_key = None \<or> api_key = Some []" by (cases api_key) auto
      from a [OF this] call show False by simp
    qed
    have "\<exists>c\<in>set user_question. \<not> is_space c"
    proof (rule ccontr)
      assume "\<not> (\<exists>c\<in>set user_question. \<not> is_space c)"
      then have "\<forall>c\<in>set user_question. is_space c" by blast
      from b [OF k this] call show False by simp
    qed
    with k show ?thesis by blast
  qed
  from a b c show ?thesis by auto
qed

theorem ask_short_circuits_witness:
  "ask_handler None [87, 104, 121, 63] complete_frame sample_findings
       = Inr (St_error key_missing_message)
   \<and> ask_handler (Some '''') [87, 104, 121, 63] complete_frame sample_findings
       = Inr (St_error key_missing_message)
   \<and> is_space 32 \<and> is_space 9 \<and> is_space 160
   \<and> ask_handler (Some ''sk-1'') [32, 9, 160] complete_frame sample_findings
       = Inr (St_warning ''Please enter a question.'')
   \<and> ask_handler (Some ''sk-1'') [] complete_frame sample_findings
       = Inr (St_warning ''Please enter a question.'')
   \<and> issues_call (ask_handler (Some ''sk-1'') [87, 104, 121, 63] complete_frame
        sample_findings)
   \<and> \<not> is_space 87"
proof -
  have sp: "\<forall>c\<in>set [32, 9, 160]. is_space c" by (simp add: is_space_def)
  have sp': "is_space 32 \<and> is_space 9 \<and> is_space 160" by (simp add: is_space_def)
  have ns: "\<not> is_space 87" by (simp add: is_space_def)
  have call: "issues_call (ask_handler (Some ''sk-1'') [87, 104, 121, 63] complete_frame
        sample_findings)"
    by (simp add: ask_handler_def py_strip_def is_space_def sample_findings_def)
  from ask_short_circuits [of None "[87, 104, 121, 63]" complete_frame sample_findings]
  have 1: "ask_handler None [87, 104, 121, 63] complete_frame sample_findings
      = Inr (St_error key_missing_message)" by simp
  from ask_short_circuits [of "Some ''''" "[87, 104, 121, 63]" complete_frame sample_findings]
  have 2: "ask_handler (Some '''') [87, 104, 121, 63] complete_frame sample_findings
      = Inr (St_error key_missing_message)" by simp
  from ask_short_circuits [of "Some ''sk-1''" "[32, 9, 160]" complete_frame sample_findings] sp
  have 3: "ask_handler (Some ''sk-1'') [32, 9, 160] complete_frame sample_findings
      = Inr (St_warning ''Please enter a question.'')" by simp
  from ask_short_circuits [of "Some ''sk-1''" "[]" complete_frame sample_findings]
  have 4: "ask_handler (Some ''sk-1'') [] complete_frame sample_findings
      = Inr (St_warning ''Please enter a question.'')" by simp
  from ask_short_circuits [of "Some ''sk-1''" "[87, 104, 121, 63]" complete_frame
      sample_findings] call
  have 5: "\<exists>c\<in>set [87, 104, 121, 63]. \<not> is_space c" by blast
  from 1 2 sp' 3 4 call ns show ?thesis by simp
qed


subsection \<open>A key column without values\<close>

lemma nunique_all_missing:
  assumes "\<forall>c\<in>set s. c = NaN"
  shows "nunique s = 0"
proof -
  from assms have "filter (\<lambda>c. c \<noteq> NaN) s = []" by (simp add: filter_empty_conv)
  then show ?thesis by (simp add: nunique_def)
qed

lemma explain_dup_status: "\<exists>x. explain ''duplicates'' (dup_status df) = Inr x"
  by (simp add: dup_status_def explain_duplicates)

lemma explain_agg_status: "\<exists>x. explain ''aggregation'' (agg_status b) = Inr x"
  by (simp add: agg_status_def explain_aggregation)

lemma negative_columns_succeeds:
  assumes "wf_frame df"
  shows "\<exists>names. negative_columns df = Inr names"
proof -
  have "\<forall>c\<in>set (select_dtypes_number df).
      c \<in> set (columns df) \<and> (\<exists>t. column_dtype df c = Some t \<and> is_number t)"
    by (simp add: select_dtypes_number_filter [OF assms])
  from negative_scan_filter [OF assms this] show ?thesis
    by (simp add: negative_columns_def)
qed

text \<open>
  Claim C5. When every cell of the chosen key column is missing, \<open>nunique\<close> is 0, the
  ratio is \<open>None\<close> and the checks finish with \<open>join_risk_status\<close> unbound. A question
  asked in that run, with a credential and a question that is not blank, ends in
  \<open>NameError\<close>: no context string is built and nothing is sent.
\<close>

theorem unbound_join_risk_status:
  assumes "wf_frame df" and "0 < shape0 df"
    and "getitem df primary_key = Inr s" and "\<forall>c\<in>set s. c = NaN"
    and "api_key = Some k" and "k \<noteq> []" and "\<exists>c\<in>set user_question. \<not> is_space c"
  shows "unique_keys df primary_key = Inr 0
    \<and> duplication_ratio (shape0 df) 0 = Inr None
    \<and> (\<exists>v. run_checks df primary_key within_tolerance = Inr v \<and> v_join_risk_status v = None)
    \<and> ask_run df primary_key within_tolerance api_key user_question = Inl NameError"
proof -
  have uk: "unique_keys df primary_key = Inr 0"
    by (simp add: unique_keys_def assms(3) nunique_all_missing [OF assms(4)])
  have ratio: "duplication_ratio (shape0 df) 0 = Inr None"
    by (simp add: duplication_ratio_def)
  obtain x1 where e1: "explain ''duplicates'' (dup_status df) = Inr x1"
    using explain_dup_status by blast
  have pk: "pk_duplicate_count df primary_key = Inr (count_true (duplicated s))"
    by (simp add: pk_duplicate_count_def assms(3))
  have "\<exists>st x2. pk_status df primary_key = Inr st \<and> explain ''pk_duplicates'' st = Inr x2"
    by (simp add: pk_status_def pk explain_pk_duplicates)
  then obtain st x2 where ps: "pk_status df primary_key = Inr st"
    and e2: "explain ''pk_duplicates'' st = Inr x2"
    by blast
  obtain names where neg: "negative_columns df = Inr names"
    using negative_columns_succeeds [OF assms(1)] by blast
  obtain x3 where e3: "explain ''aggregation'' (agg_status within_tolerance) = Inr x3"
    using explain_agg_status by blast
  let ?v = "\<lparr>v_duplicate_count = duplicate_count df,
      v_pk_duplicate_count = count_true (duplicated s),
      v_null_columns = null_columns df,
      v_negative_columns = names,
      v_agg_status = agg_status within_tolerance,
      v_join_risk_status = None\<rparr>"
  have run: "run_checks df primary_key within_tolerance = Inr ?v"
    by (simp add: run_checks_def then_do_def e1 pk ps e2 uk ratio join_risk_status_def neg e3)
  from assms(7) have "py_strip user_question \<noteq> []" by (simp add: py_strip_empty_iff)
  then have "ask_handler api_key user_question df ?v = Inl NameError"
    using assms(5,6) by (simp add: ask_handler_def)
  then have "ask_run df primary_key within_tolerance api_key user_question = Inl NameError"
    by (simp add: ask_run_def then_do_def run)
  with uk ratio run show ?thesis by simp
qed

theorem unbound_join_risk_status_witness:
  "wf_frame keyless_frame \<and> shape0 keyless_frame = 2
   \<and> getitem keyless_frame ''customer'' = Inr [NaN, NaN]
   \<and> \<not> is_space 87
   \<and> unique_keys keyless_frame ''customer'' = Inr 0
   \<and> ask_run keyless_frame ''customer'' True (Some ''sk-1'') [87, 104, 121, 63] = Inl NameError"
proof -
  have w: "wf_frame keyless_frame"
    by (simp add: wf_frame_def keyless_frame_def)
  have n: "shape0 keyless_frame = 2"
    by (simp add: shape0_def keyless_frame_def)
  have g: "getitem keyless_frame ''customer'' = Inr [NaN, NaN]"
    by (simp add: getitem_def column_at_def keyless_frame_def)
  have a: "\<forall>c\<in>set [NaN, NaN :: int cell]. c = NaN" by simp
  have q: "\<exists>c\<in>set [87, 104, 121, 63]. \<not> is_space c" by (simp add: is_space_def)
  from n have pos: "0 < shape0 keyless_frame" by simp
  from unbound_join_risk_status [OF w pos g a refl _ q, of "''sk-1''" True]
  have "unique_keys keyless_frame ''customer'' = Inr 0
      \<and> ask_run keyless_frame ''customer'' True (Some ''sk-1'') [87, 104, 121, 63] = Inl NameError"
    by simp
  moreover have "\<not> is_space 87" by (simp add: is_space_def)
  ultimately show ?thesis using w n g by simp
qed


subsection \<open>Rounding to an integer\<close>

lemma round_half_even_ge:
  assumes "of_int z \<le> x"
  shows "z \<le> round_half_even x"
proof -
  from assms have "z \<le> \<lfloor>x\<rfloor>" by (simp add: le_floor_iff)
  then show ?thesis by (simp add: round_half_even_def Let_def)
qed

lemma round_half_even_le:
  assumes "x \<le> of_int z"
  shows "round_half_even x \<le> z"
proof (cases "x - of_int \<lfloor>x\<rfloor> < 1 / 2")
  case True
  have "of_int \<lfloor>x\<rfloor> \<le> x" by simp
  with assms have "of_int \<lfloor>x\<rfloor> \<le> (of_int z :: rat)" by linarith
  then have "\<lfloor>x\<rfloor> \<le> z" by simp
  with True show ?thesis by (simp add: round_half_even_def Let_def)
next
  case False
  then have "of_int \<lfloor>x\<rfloor> < x" by simp
  with assms have "of_int \<lfloor>x\<rfloor> < (of_int z :: rat)" by linarith
  then have "\<lfloor>x\<rfloor> + 1 \<le> z" by simp
  then show ?thesis by (simp add: round_half_even_def Let_def)
qed

lemma round_half_even_error: "\<bar>of_int (round_half_even x) - x\<bar> \<le> 1 / 2"
proof -
  have "of_int \<lfloor>x\<rfloor> \<le> x" and "x < of_int \<lfloor>x\<rfloor> + 1" by linarith+
  then show ?thesis by (auto simp: round_half_even_def Let_def)
qed

subsection \<open>The binary exponent of a quotient\<close>

lemma two_powi_pos: "0 < (2::rat) powi k"
  by (simp add: zero_less_power_int)

lemma two_powi_add: "(2::rat) powi (m + n) = 2 powi m * 2 powi n"
  by (simp add: power_int_add)

lemma two_powi_Suc: "(2::rat) powi (k + 1) = 2 * 2 powi k"
  by (simp add: two_powi_add)

lemma two_powi_mono: "m \<le> n \<Longrightarrow> (2::rat) powi m \<le> 2 powi n"
  by (rule power_int_increasing) simp_all

lemma bitlen_bounds_rat:
  assumes "0 < a"
  shows "(2::rat) powi (bitlen (int a) - 1) \<le> of_nat a" and "(of_nat a :: rat) < 2 powi (bitlen (int a))"
proof -
  from assms have pos: "0 < int a" by simp
  from bitlen_bounds [OF pos]
  have lo: "2 ^ nat (bitlen (int a) - 1) \<le> int a" and hi: "int a < 2 ^ nat (bitlen (int a))"
    by simp_all
  have ge1: "1 \<le> bitlen (int a)" using pos by (simp add: bitlen_alt_def)
  from lo have "(of_int (2 ^ nat (bitlen (int a) - 1)) :: rat) \<le> of_int (int a)"
    by (simp only: of_int_le_iff)
  then show "(2::rat) powi (bitlen (int a) - 1) \<le> of_nat a"
    using ge1 by (simp add: power_int_def)
  from hi have "(of_int (int a) :: rat) < of_int (2 ^ nat (bitlen (int a)))"
    by (simp only: of_int_less_iff)
  then show "(of_nat a :: rat) < 2 powi (bitlen (int a))"
    using ge1 by (simp add: power_int_def)
qed

lemma exponent_of_bounds:
  assumes "0 < a" and "0 < b"
  shows "(2::rat) powi (exponent_of a b) \<le> of_nat a / of_nat b"
    and "(of_nat a / of_nat b :: rat) < 2 powi (exponent_of a b + 1)"
proof -
  let ?la = "bitlen (int a)" and ?lb = "bitlen (int b)"
  let ?d = "?la - ?lb"
  let ?A = "of_nat a :: rat" and ?B = "of_nat b :: rat"
  have B: "0 < ?B" using assms(2) by simp
  note a = bitlen_bounds_rat [OF assms(1)] and b = bitlen_bounds_rat [OF assms(2)]
  have "2 powi (?d - 1) * ?B < 2 powi (?d - 1) * 2 powi ?lb"
    using b(2) two_powi_pos [of "?d - 1"] by simp
  also have "\<dots> = 2 powi (?la - 1)"
    using two_powi_add [of "?d - 1" ?lb] by (simp add: algebra_simps)
  also have "\<dots> \<le> ?A" by (rule a(1))
  finally have low: "2 powi (?d - 1) * ?B < ?A" .
  have "?A < 2 powi ?la" by (rule a(2))
  also have "\<dots> = 2 powi (?d + 1) * 2 powi (?lb - 1)"
    using two_powi_add [of "?d + 1" "?lb - 1"] by (simp add: algebra_simps)
  also have "\<dots> \<le> 2 powi (?d + 1) * ?B"
    using b(1) two_powi_pos [of "?d + 1"] by simp
  finally have high: "?A < 2 powi (?d + 1) * ?B" .
  show "(2::rat) powi (exponent_of a b) \<le> ?A / ?B"
  proof (cases "?B * 2 powi ?d \<le> ?A")
    case True
    then have "exponent_of a b = ?d" by (simp add: exponent_of_def Let_def)
    with True B show ?thesis by (simp add: pos_le_divide_eq mult.commute)
  next
    case False
    then have "exponent_of a b = ?d - 1" by (simp add: exponent_of_def Let_def)
    with low B show ?thesis by (simp add: pos_le_divide_eq)
  qed
  show "?A / ?B < 2 powi (exponent_of a b + 1)"
  proof (cases "?B * 2 powi ?d \<le> ?A")
    case True
    then have "exponent_of a b = ?d" by (simp add: exponent_of_def Let_def)
    with high B show ?thesis by (simp add: pos_divide_less_eq)
  next
    case False
    then have "exponent_of a b = ?d - 1" by (simp add: exponent_of_def Let_def)
    with False B show ?thesis by (simp add: pos_divide_less_eq mult.commute not_le)
  qed
qed

subsection \<open>Rounding a quotient to binary64\<close>

lemma exponent_of_nonneg:
  assumes "0 < b" and "b \<le> a"
  shows "0 \<le> exponent_of a b"
proof (rule ccontr)
  assume "\<not> 0 \<le> exponent_of a b"
  then have "exponent_of a b + 1 \<le> 0" by simp
  then have "(2::rat) powi (exponent_of a b + 1) \<le> 2 powi 0" by (rule two_powi_mono)
  moreover from assms have "0 < a" by simp
  then have "(of_nat a / of_nat b :: rat) < 2 powi (exponent_of a b + 1)"
    using assms(1) by (rule exponent_of_bounds(2))
  moreover from assms have "(1::rat) \<le> of_nat a / of_nat b" by simp
  ultimately show False by simp
qed

lemma binary64_unfold:
  assumes "0 < b" and "b \<le> a"
  shows "binary64 a b
       = of_int (round_half_even (of_nat a / of_nat b * 2 powi (52 - exponent_of a b)))
         * 2 powi (exponent_of a b - 52)"
proof -
  from assms have "a \<noteq> 0" by simp
  moreover have "max (exponent_of a b) (- 1022) = exponent_of a b"
    using exponent_of_nonneg [OF assms] by simp
  ultimately show ?thesis by (simp add: binary64_def Let_def)
qed

lemma scale_mono: "x \<le> y \<Longrightarrow> x * 2 powi k \<le> y * (2::rat) powi k"
  by (rule mult_right_mono) (simp_all add: less_imp_le two_powi_pos)

lemma scale_strict_mono: "x < y \<Longrightarrow> x * 2 powi k < y * (2::rat) powi k"
  by (rule mult_strict_right_mono) (simp_all add: two_powi_pos)

lemma scaled_bounds:
  assumes "0 < b" and "b \<le> a"
  shows "(2::rat) ^ 52 \<le> of_nat a / of_nat b * 2 powi (52 - exponent_of a b)"
    and "(of_nat a / of_nat b :: rat) * 2 powi (52 - exponent_of a b) < 2 ^ 53"
proof -
  let ?e = "exponent_of a b" and ?q = "of_nat a / of_nat b :: rat"
  from assms have a: "0 < a" by simp
  have "(2::rat) ^ 52 = 2 powi ?e * 2 powi (52 - ?e)"
    using two_powi_add [of ?e "52 - ?e"] by simp
  also have "\<dots> \<le> ?q * 2 powi (52 - ?e)"
    by (rule scale_mono [OF exponent_of_bounds(1) [OF a assms(1)]])
  finally show "(2::rat) ^ 52 \<le> ?q * 2 powi (52 - ?e)" .
  have "?q * 2 powi (52 - ?e) < 2 powi (?e + 1) * 2 powi (52 - ?e)"
    by (rule scale_strict_mono [OF exponent_of_bounds(2) [OF a assms(1)]])
  also have "\<dots> = 2 ^ 53"
    using two_powi_add [of "?e + 1" "52 - ?e"] by simp
  finally show "?q * 2 powi (52 - ?e) < 2 ^ 53" .
qed

lemma significand_bounds:
  assumes "0 < b" and "b \<le> a"
  shows "2 ^ 52 \<le> round_half_even (of_nat a / of_nat b * 2 powi (52 - exponent_of a b))"
    and "round_half_even (of_nat a / of_nat b * 2 powi (52 - exponent_of a b)) \<le> 2 ^ 53"
proof -
  let ?s = "of_nat a / of_nat b * 2 powi (52 - exponent_of a b) :: rat"
  have "of_int (2 ^ 52) \<le> ?s" using scaled_bounds(1) [OF assms] by simp
  then show "2 ^ 52 \<le> round_half_even ?s" by (rule round_half_even_ge)
  have "?s \<le> of_int (2 ^ 53)" using scaled_bounds(2) [OF assms] by simp
  then show "round_half_even ?s \<le> 2 ^ 53" by (rule round_half_even_le)
qed

text \<open>
  Rounding never crosses a number \<open>M * 2 ^ E\<close> with \<open>M\<close> of at most 53 bits: such a
  number at or below the quotient stays at or below the rounded quotient, and likewise
  above.
\<close>

lemma binary64_grid:
  fixes M E :: int
  assumes "0 < b" and "b \<le> a" and "0 \<le> M" and "M < 2 ^ 53"
  shows "of_int M * 2 powi E \<le> (of_nat a / of_nat b :: rat) \<Longrightarrow> of_int M * 2 powi E \<le> binary64 a b"
    and "(of_nat a / of_nat b :: rat) \<le> of_int M * 2 powi E \<Longrightarrow> binary64 a b \<le> of_int M * 2 powi E"
proof -
  let ?e = "exponent_of a b" and ?q = "of_nat a / of_nat b :: rat"
  let ?s = "?q * 2 powi (52 - ?e)"
  let ?m = "round_half_even ?s"
  let ?g = "of_int M * 2 powi E :: rat"
  from assms have a: "0 < a" by simp
  have fl: "binary64 a b = of_int ?m * 2 powi (?e - 52)" by (rule binary64_unfold [OF assms(1,2)])
  have inv: "(2::rat) powi (52 - ?e) * 2 powi (?e - 52) = 1"
    using two_powi_add [of "52 - ?e" "?e - 52"] by simp
  have small: "?g < 2 powi ?e" if "E + 52 - ?e < 0"
  proof -
    have "of_int M < (2::rat) ^ 53" using assms(4) by (metis of_int_less_iff of_int_numeral of_int_power)
    then have "?g < 2 ^ 53 * 2 powi E" by (rule scale_strict_mono)
    also have "\<dots> = 2 powi (53 + E)" using two_powi_add [of 53 E] by simp
    also have "\<dots> \<le> 2 powi ?e" using that by (intro two_powi_mono) simp
    finally show ?thesis .
  qed
  have grid: "of_int (M * 2 ^ nat (E + 52 - ?e)) * (2::rat) powi (?e - 52) = ?g"
    and grid': "(of_int (M * 2 ^ nat (E + 52 - ?e)) :: rat) = ?g * 2 powi (52 - ?e)"
    if "0 \<le> E + 52 - ?e"
  proof -
    from that have "(2::rat) ^ nat (E + 52 - ?e) = 2 powi (E + 52 - ?e)"
      by (simp add: power_int_def)
    also have "\<dots> = 2 powi E * 2 powi (52 - ?e)"
      using two_powi_add [of E "52 - ?e"] by (simp add: algebra_simps)
    finally have p: "(2::rat) ^ nat (E + 52 - ?e) = 2 powi E * 2 powi (52 - ?e)" .
    show "(of_int (M * 2 ^ nat (E + 52 - ?e)) :: rat) = ?g * 2 powi (52 - ?e)"
      by (simp add: p)
    then have "of_int (M * 2 ^ nat (E + 52 - ?e)) * (2::rat) powi (?e - 52)
        = ?g * (2 powi (52 - ?e) * 2 powi (?e - 52))"
      by (simp only: mult.assoc)
    then show "of_int (M * 2 ^ nat (E + 52 - ?e)) * (2::rat) powi (?e - 52) = ?g"
      by (simp only: inv mult_1_right)
  qed
  show "?g \<le> binary64 a b" if le: "?g \<le> ?q"
  proof (cases "0 \<le> E + 52 - ?e")
    case True
    let ?z = "M * 2 ^ nat (E + 52 - ?e)"
    have "of_int ?z \<le> ?s"
      unfolding grid' [OF True] by (rule scale_mono [OF le])
    then have "?z \<le> ?m" by (rule round_half_even_ge)
    then have "(of_int ?z :: rat) \<le> of_int ?m" by (simp only: of_int_le_iff)
    then have "of_int ?z * (2::rat) powi (?e - 52) \<le> of_int ?m * 2 powi (?e - 52)"
      by (rule scale_mono)
    then show ?thesis by (simp only: grid [OF True] fl)
  next
    case False
    then have lt: "?g < 2 powi ?e" using small by simp
    have "(of_int (2 ^ 52) :: rat) \<le> of_int ?m"
      using significand_bounds(1) [OF assms(1,2)] by (simp only: of_int_le_iff)
    then have "of_int (2 ^ 52) * (2::rat) powi (?e - 52) \<le> of_int ?m * 2 powi (?e - 52)"
      by (rule scale_mono)
    moreover have "of_int (2 ^ 52) * (2::rat) powi (?e - 52) = 2 powi ?e"
      using two_powi_add [of 52 "?e - 52"] by simp
    ultimately have "2 powi ?e \<le> binary64 a b" by (simp only: fl)
    with lt show ?thesis by simp
  qed
  show "binary64 a b \<le> ?g" if ge: "?q \<le> ?g"
  proof (cases "0 \<le> E + 52 - ?e")
    case True
    let ?z = "M * 2 ^ nat (E + 52 - ?e)"
    have "?s \<le> of_int ?z"
      unfolding grid' [OF True] by (rule scale_mono [OF ge])
    then have "?m \<le> ?z" by (rule round_half_even_le)
    then have "(of_int ?m :: rat) \<le> of_int ?z" by (simp only: of_int_le_iff)
    then have "of_int ?m * (2::rat) powi (?e - 52) \<le> of_int ?z * 2 powi (?e - 52)"
      by (rule scale_mono)
    then show ?thesis by (simp only: grid [OF True] fl)
  next
    case False
    then have "?g < 2 powi ?e" using small by simp
    moreover have "2 powi ?e \<le> ?q" by (rule exponent_of_bounds(1) [OF a assms(1)])
    ultimately show ?thesis using ge by simp
  qed
qed

lemma binary64_error:
  assumes "0 < b" and "b \<le> a"
  shows "\<bar>binary64 a b - of_nat a / of_nat b\<bar> \<le> (of_nat a / of_nat b) / 2 ^ 53"
proof -
  let ?e = "exponent_of a b" and ?q = "of_nat a / of_nat b :: rat"
  let ?s = "?q * 2 powi (52 - ?e)"
  let ?m = "round_half_even ?s"
  from assms have a: "0 < a" by simp
  have inv: "(2::rat) powi (52 - ?e) * 2 powi (?e - 52) = 1"
    using two_powi_add [of "52 - ?e" "?e - 52"] by simp
  have q: "?q = ?s * 2 powi (?e - 52)"
    by (simp only: mult.assoc inv mult_1_right)
  have "binary64 a b - ?q = of_int ?m * 2 powi (?e - 52) - ?s * 2 powi (?e - 52)"
    using q by (simp only: binary64_unfold [OF assms])
  also have "\<dots> = (of_int ?m - ?s) * 2 powi (?e - 52)"
    by (simp only: left_diff_distrib)
  finally have "\<bar>binary64 a b - ?q\<bar> = \<bar>of_int ?m - ?s\<bar> * 2 powi (?e - 52)"
    using two_powi_pos [of "?e - 52"] by (simp only: abs_mult abs_of_pos)
  also have "\<dots> \<le> 1 / 2 * 2 powi (?e - 52)"
    by (rule scale_mono [OF round_half_even_error])
  also have "\<dots> = 2 powi ?e / 2 ^ 53"
    using two_powi_add [of "?e - 52" 52] by simp
  also have "\<dots> \<le> ?q / 2 ^ 53"
    using exponent_of_bounds(1) [OF a assms(1)] by (simp add: divide_right_mono)
  finally show ?thesis .
qed

subsection \<open>The ratio of rows to distinct keys\<close>

lemma quotient_bounds:
  assumes "0 < k" and "k \<le> n" and "n < 2 ^ 45"
  shows "(1::rat) \<le> of_nat n / of_nat k" and "(of_nat n / of_nat k :: rat) \<le> 2 ^ 45"
proof -
  from assms show "(1::rat) \<le> of_nat n / of_nat k" by simp
  have "(of_nat n :: rat) \<le> of_nat (2 ^ 45)" using assms(3) by (simp only: of_nat_le_iff)
  then have "(of_nat n :: rat) \<le> 2 ^ 45" by simp
  moreover have "(1::rat) \<le> of_nat k" using assms(1) by simp
  ultimately have "(of_nat n :: rat) * 1 \<le> 2 ^ 45 * of_nat k"
    by (intro mult_mono) simp_all
  then show "(of_nat n / of_nat k :: rat) \<le> 2 ^ 45"
    using assms(1) by (simp add: pos_divide_le_eq)
qed

lemma binary64_range:
  assumes "0 < b" and "b \<le> a" and "(of_nat a / of_nat b :: rat) \<le> 2 ^ 45"
  shows "1 \<le> binary64 a b" and "binary64 a b \<le> 2 ^ 45"
    and "checked_binary64 a b = Inr (binary64 a b)"
proof -
  have "of_int 1 * 2 powi 0 \<le> (of_nat a / of_nat b :: rat)" using assms(1,2) by simp
  then have "of_int 1 * 2 powi 0 \<le> binary64 a b"
    by (rule binary64_grid(1) [OF assms(1,2), rotated 2]) simp_all
  then show lo: "1 \<le> binary64 a b" by simp
  have "(of_nat a / of_nat b :: rat) \<le> of_int 1 * 2 powi 45" using assms(3) by simp
  then have "binary64 a b \<le> of_int 1 * 2 powi 45"
    by (rule binary64_grid(2) [OF assms(1,2), rotated 2]) simp_all
  then show hi: "binary64 a b \<le> 2 ^ 45" by simp
  have "(2::rat) ^ 45 < 2 ^ 1024" by (rule power_strict_increasing) simp_all
  with hi have "\<not> 2 ^ 1024 \<le> binary64 a b" by simp
  then show "checked_binary64 a b = Inr (binary64 a b)"
    by (simp add: checked_binary64_def Let_def)
qed

lemma round2_decimal_range:
  assumes "1 \<le> x" and "x \<le> 2 ^ 45"
  shows "100 \<le> round2_decimal x" and "int (round2_decimal x) = round_half_even (x * 100)"
    and "(of_nat (round2_decimal x) / of_nat 100 :: rat) \<le> 2 ^ 45"
proof -
  have "of_int 100 \<le> x * 100" using assms(1) by simp
  then have lo: "100 \<le> round_half_even (x * 100)" by (rule round_half_even_ge)
  then show "100 \<le> round2_decimal x" by (simp add: round2_decimal_def)
  from lo show eq: "int (round2_decimal x) = round_half_even (x * 100)"
    by (simp add: round2_decimal_def)
  have "x * 100 \<le> of_int (2 ^ 45 * 100)" using assms(2) by simp
  then have "round_half_even (x * 100) \<le> 2 ^ 45 * 100" by (rule round_half_even_le)
  with eq have "int (round2_decimal x) \<le> 2 ^ 45 * 100" by simp
  then have "(of_int (int (round2_decimal x)) :: rat) \<le> of_int (2 ^ 45 * 100)"
    by (simp only: of_int_le_iff)
  then show "(of_nat (round2_decimal x) / of_nat 100 :: rat) \<le> 2 ^ 45" by simp
qed

lemma ratio_near:
  assumes "0 < k" and "k \<le> n" and "n < 2 ^ 45"
  shows "\<bar>of_nat (round2_decimal (binary64 n k)) / 100 - of_nat n / of_nat k\<bar> \<le> (1 / 200 :: rat)"
proof -
  let ?K = "of_nat k :: rat" and ?N = "of_nat n :: rat"
  let ?q = "?N / ?K"
  let ?x = "binary64 n k"
  let ?j = "round2_decimal ?x"
  let ?J = "of_nat ?j :: rat"
  let ?D = "2 * int k * int ?j - 200 * int n"
  have K: "0 < ?K" using assms(1) by simp
  have Kq: "?K * ?q = ?N" using K by simp
  note qb = quotient_bounds [OF assms]
  note xb = binary64_range [OF assms(1,2) qb(2)]
  have je: "?J = of_int (round_half_even (?x * 100))"
    using round2_decimal_range(2) [OF xb(1,2)] by (metis of_int_of_nat_eq)
  have e1: "\<bar>?x - ?q\<bar> \<le> ?q / 2 ^ 53" by (rule binary64_error [OF assms(1,2)])
  have e2: "\<bar>?J - ?x * 100\<bar> \<le> 1 / 2" unfolding je by (rule round_half_even_error)
  from e1 e2 have A: "\<bar>?J - 100 * ?q\<bar> \<le> 1 / 2 + 100 * (?q / 2 ^ 53)" by linarith
  have "(of_nat n :: rat) < of_nat (2 ^ 45)" using assms(3) by (simp only: of_nat_less_iff)
  then have N: "?N < 2 ^ 45" by simp
  have D: "of_int ?D = 2 * ?K * (?J - 100 * ?q)"
  proof -
    have "2 * ?K * (?J - 100 * ?q) = 2 * ?K * ?J - 200 * (?K * ?q)" by (simp add: algebra_simps)
    also have "\<dots> = 2 * ?K * ?J - 200 * ?N" by (simp only: Kq)
    finally show ?thesis by simp
  qed
  have "\<bar>2 * ?K * (?J - 100 * ?q)\<bar> = 2 * ?K * \<bar>?J - 100 * ?q\<bar>"
    using K by (simp add: abs_mult)
  also have "\<dots> \<le> 2 * ?K * (1 / 2 + 100 * (?q / 2 ^ 53))"
    using A K by (intro mult_left_mono) simp_all
  also have "\<dots> = ?K + 200 * (?K * ?q) / 2 ^ 53" by (simp add: algebra_simps)
  also have "\<dots> = ?K + 200 * ?N / 2 ^ 53" by (simp only: Kq)
  also have "\<dots> < ?K + 1" using N by simp
  finally have "\<bar>2 * ?K * (?J - 100 * ?q)\<bar> < ?K + 1" .
  then have "\<bar>(of_int ?D :: rat)\<bar> < ?K + 1" by (simp only: D)
  then have "(of_int \<bar>?D\<bar> :: rat) < of_int (int k + 1)"
    by (simp only: of_int_abs of_int_add of_int_of_nat_eq of_int_1)
  then have "\<bar>?D\<bar> < int k + 1" by (simp only: of_int_less_iff)
  then have "\<bar>?D\<bar> \<le> int k" by simp
  then have "(of_int \<bar>?D\<bar> :: rat) \<le> of_int (int k)" by (simp only: of_int_le_iff)
  then have "\<bar>(of_int ?D :: rat)\<bar> \<le> ?K" by (simp only: of_int_abs of_int_of_nat_eq)
  then have "\<bar>2 * ?K * (?J - 100 * ?q)\<bar> \<le> ?K" by (simp only: D)
  then have "2 * ?K * \<bar>?J - 100 * ?q\<bar> \<le> ?K" using K by (simp add: abs_mult)
  then have "\<bar>?J - 100 * ?q\<bar> \<le> 1 / 2" using K by simp
  then show ?thesis by linarith
qed

lemma literal_1_05: "binary64 105 100 = of_int 4728779608739021 * 2 powi (- 52)"
  by code_simp

lemma status_thresholds:
  assumes "100 \<le> j"
  shows "join_risk_status (Some (binary64 j 100))
       = Some (if j \<le> 105 then ''LOW'' else if j \<le> 200 then ''MEDIUM'' else ''HIGH'')"
proof -
  let ?r = "binary64 j 100" and ?q = "of_nat j / of_nat 100 :: rat"
  have b: "0 < (100::nat)" by simp
  have low: "?r \<le> binary64 105 100" if "j \<le> 105"
  proof -
    from that have "(of_nat j :: rat) \<le> of_nat 105" by (simp only: of_nat_le_iff)
    then have "?q \<le> 105 / 100" by simp
    also have "\<dots> \<le> of_int 4728779608739021 * 2 powi (- 52)" by code_simp
    finally have "?r \<le> of_int 4728779608739021 * 2 powi (- 52)"
      by (rule binary64_grid(2) [OF b assms, rotated 2]) simp_all
    then show ?thesis by (simp only: literal_1_05)
  qed
  have not_low: "binary64 105 100 < ?r" if "105 < j"
  proof -
    from that have "106 \<le> j" by simp
    then have "(of_nat 106 :: rat) \<le> of_nat j" by (simp only: of_nat_le_iff)
    then have "106 / 100 \<le> ?q" by simp
    moreover have "of_int 135 * 2 powi (- 7) \<le> (106 / 100 :: rat)" by code_simp
    ultimately have "of_int 135 * 2 powi (- 7) \<le> ?q" by (rule order_trans [rotated])
    then have "of_int 135 * 2 powi (- 7) \<le> ?r"
      by (rule binary64_grid(1) [OF b assms, rotated 2]) simp_all
    moreover have "of_int 4728779608739021 * 2 powi (- 52) < (of_int 135 * 2 powi (- 7) :: rat)"
      by code_simp
    ultimately show ?thesis by (simp only: literal_1_05)
  qed
  have medium: "?r \<le> 2" if "j \<le> 200"
  proof -
    from that have "(of_nat j :: rat) \<le> of_nat 200" by (simp only: of_nat_le_iff)
    then have "?q \<le> of_int 1 * 2 powi 1" by simp
    then have "?r \<le> of_int 1 * 2 powi 1"
      by (rule binary64_grid(2) [OF b assms, rotated 2]) simp_all
    then show ?thesis by simp
  qed
  have high: "2 < ?r" if "200 < j"
  proof -
    from that have "201 \<le> j" by simp
    then have "(of_nat 201 :: rat) \<le> of_nat j" by (simp only: of_nat_le_iff)
    then have "201 / 100 \<le> ?q" by simp
    moreover have "of_int 257 * 2 powi (- 7) \<le> (201 / 100 :: rat)" by code_simp
    ultimately have "of_int 257 * 2 powi (- 7) \<le> ?q" by (rule order_trans [rotated])
    then have "of_int 257 * 2 powi (- 7) \<le> ?r"
      by (rule binary64_grid(1) [OF b assms, rotated 2]) simp_all
    moreover have "2 < (of_int 257 * 2 powi (- 7) :: rat)" by code_simp
    ultimately show ?thesis by simp
  qed
  show ?thesis
  proof (cases "j \<le> 105")
    case True
    with low show ?thesis by (simp add: join_risk_status_def)
  next
    case False
    then have nl: "\<not> ?r \<le> binary64 105 100" using not_low by simp
    show ?thesis
    proof (cases "j \<le> 200")
      case True
      with False nl medium show ?thesis by (simp add: join_risk_status_def)
    next
      case c: False
      then have "\<not> ?r \<le> 2" using high by simp
      with False c nl show ?thesis by (simp add: join_risk_status_def)
    qed
  qed
qed

lemma duplication_ratio_value:
  assumes "0 < k" and "k \<le> n" and "n < 2 ^ 45"
  shows "duplication_ratio n k = Inr (Some (binary64 (round2_decimal (binary64 n k)) 100))"
proof -
  note qb = quotient_bounds [OF assms]
  note xb = binary64_range [OF assms(1,2) qb(2)]
  note jb = round2_decimal_range [OF xb(1,2)]
  have "checked_binary64 (round2_decimal (binary64 n k)) 100
      = Inr (binary64 (round2_decimal (binary64 n k)) 100)"
    by (rule binary64_range(3) [OF _ jb(1) jb(3)]) simp
  then show ?thesis
    using assms(1) by (simp add: duplication_ratio_def py_truediv_def py_round2_def xb(3))
qed

lemma nunique_le_length: "nunique s \<le> length s"
proof -
  have "length (remdups (filter (\<lambda>c. c \<noteq> NaN) s)) \<le> length (filter (\<lambda>c. c \<noteq> NaN) s)"
    by (rule length_remdups_leq)
  also have "\<dots> \<le> length s" by (rule length_filter_le)
  finally show ?thesis by (simp add: nunique_def)
qed

lemma cents_scale:
  fixes a b :: rat
  assumes "\<bar>a / 100 - b\<bar> \<le> 1 / 200"
  shows "\<bar>a - b * 100\<bar> \<le> 1 / 2"
proof -
  have "a - b * 100 = 100 * (a / 100 - b)" by simp
  then have "\<bar>a - b * 100\<bar> = 100 * \<bar>a / 100 - b\<bar>" by (simp only: abs_mult)
  with assms show ?thesis by simp
qed

lemma ratio_exact_unless_tie:
  assumes "0 < k" and "k \<le> n" and "n < 2 ^ 45"
    and "\<forall>z::int. (of_nat n / of_nat k * 100 :: rat) \<noteq> of_int z + 1 / 2"
  shows "of_nat (round2_decimal (binary64 n k)) / 100 = spec_round2 (of_nat n / of_nat k)"
proof -
  let ?q = "of_nat n / of_nat k :: rat"
  let ?t = "?q * 100"
  let ?j = "round2_decimal (binary64 n k)"
  let ?R = "round_half_even ?t"
  let ?J = "of_nat ?j :: rat"
  have near: "\<bar>?J / 100 - ?q\<bar> \<le> (1 / 200 :: rat)"
    by (rule ratio_near [OF assms(1-3)])
  then have le: "\<bar>?J - ?t\<bar> \<le> 1 / 2" by (rule cents_scale)
  have "?t \<noteq> of_int (int ?j) + 1 / 2" using assms(4) by blast
  then have ne1: "?t \<noteq> ?J + 1 / 2" by simp
  have "?t \<noteq> of_int (int ?j - 1) + 1 / 2" using assms(4) by blast
  then have ne2: "?t \<noteq> ?J - 1 / 2" by simp
  from le ne1 ne2 have lt: "\<bar>?J - ?t\<bar> < 1 / 2" by linarith
  have "\<bar>of_int ?R - ?t\<bar> \<le> 1 / 2" by (rule round_half_even_error)
  with lt have "\<bar>?J - of_int ?R\<bar> < 1" by linarith
  then have "\<bar>(of_int (int ?j - ?R) :: rat)\<bar> < of_int 1" by simp
  then have "(of_int \<bar>int ?j - ?R\<bar> :: rat) < of_int 1" by (simp only: of_int_abs)
  then have "\<bar>int ?j - ?R\<bar> < 1" by (simp only: of_int_less_iff)
  then have "int ?j = ?R" by simp
  then have "?J = of_int ?R" by (metis of_int_of_nat_eq)
  then show ?thesis by (simp add: spec_round2_def)
qed

lemma spec_severity_cents:
  "spec_severity (of_nat j / 100)
     = (if j \<le> 105 then ''LOW'' else if j \<le> 200 then ''MEDIUM'' else ''HIGH'')"
proof -
  have "(of_nat j / 100 :: rat) \<le> 105 / 100 \<longleftrightarrow> (of_nat j :: rat) \<le> of_nat 105" by simp
  also have "\<dots> \<longleftrightarrow> j \<le> 105" by (simp only: of_nat_le_iff)
  finally have a: "(of_nat j / 100 :: rat) \<le> 105 / 100 \<longleftrightarrow> j \<le> 105" .
  have "(of_nat j / 100 :: rat) \<le> 2 \<longleftrightarrow> (of_nat j :: rat) \<le> of_nat 200" by simp
  also have "\<dots> \<longleftrightarrow> j \<le> 200" by (simp only: of_nat_le_iff)
  finally have b: "(of_nat j / 100 :: rat) \<le> 2 \<longleftrightarrow> j \<le> 200" .
  show ?thesis unfolding spec_severity_def a b ..
qed

lemma tie_211_200:
  "round2_decimal (binary64 211 200) = 105"
  "spec_join_risk 211 200 = Some (106 / 100, ''MEDIUM'')"
  "binary64 105 100 \<noteq> binary64 106 100"
  "round (211 / 200 * 100 :: rat) = 106"
  by code_simp+

text \<open>
  Claim C1. For a key column of a frame with fewer than \<open>2 ^ 45\<close> rows:
  when the column has no distinct value the ratio is \<open>None\<close>, nothing is raised and
  no status is assigned. Otherwise the ratio is the float of the decimal \<open>j / 100\<close>,
  where \<open>j\<close> is the float quotient of rows by distinct keys times 100, rounded to an
  integer. This decimal lies within half a hundredth of the exact quotient; it is the
  exact quotient rounded to two decimals unless that quotient lies exactly halfway
  between two such decimals. The status is LOW for \<open>j / 100 \<le> 1.05\<close>, MEDIUM for
  \<open>1.05 < j / 100 \<le> 2\<close> and HIGH above 2.
\<close>

theorem join_inflation_risk:
  assumes "primary_key \<in> set (columns df)" and "shape0 df < 2 ^ 45"
  shows "\<exists>s. getitem df primary_key = Inr s
      \<and> unique_keys df primary_key = Inr (nunique s)
      \<and> (nunique s = 0 \<longrightarrow>
            duplication_ratio (shape0 df) (nunique s) = Inr None
            \<and> join_risk_status None = None)
      \<and> (0 < nunique s \<longrightarrow>
            (\<exists>j. j = round2_decimal (binary64 (shape0 df) (nunique s))
               \<and> duplication_ratio (shape0 df) (nunique s) = Inr (Some (binary64 j 100))
               \<and> \<bar>of_nat j / 100 - of_nat (shape0 df) / of_nat (nunique s)\<bar> \<le> (1 / 200 :: rat)
               \<and> ((\<forall>z::int. (of_nat (shape0 df) / of_nat (nunique s) * 100 :: rat)
                        \<noteq> of_int z + 1 / 2) \<longrightarrow>
                    of_nat j / 100 = spec_round2 (of_nat (shape0 df) / of_nat (nunique s)))
               \<and> join_risk_status (Some (binary64 j 100)) = Some (spec_severity (of_nat j / 100))
               \<and> spec_severity (of_nat j / 100)
                   = (if j \<le> 105 then ''LOW''
                      else if j \<le> 200 then ''MEDIUM'' else ''HIGH'')))"
proof -
  from assms(1) obtain p where g: "getitem df primary_key = Inr (column_at df p)"
    by (rule getitem_in_columns)
  let ?s = "column_at df p"
  let ?n = "shape0 df" and ?k = "nunique ?s"
  let ?q = "of_nat ?n / of_nat ?k :: rat"
  let ?j = "round2_decimal (binary64 ?n ?k)"
  have uk: "unique_keys df primary_key = Inr ?k" by (simp add: unique_keys_def g)
  have kn: "?k \<le> ?n" using nunique_le_length [of ?s] by (simp add: length_column_at)
  have none: "duplication_ratio ?n ?k = Inr None \<and> join_risk_status None = None" if "?k = 0"
    using that by (simp add: duplication_ratio_def join_risk_status_def)
  have some: "?j = round2_decimal (binary64 ?n ?k)
      \<and> duplication_ratio ?n ?k = Inr (Some (binary64 ?j 100))
      \<and> \<bar>of_nat ?j / 100 - ?q\<bar> \<le> (1 / 200 :: rat)
      \<and> ((\<forall>z::int. ?q * 100 \<noteq> of_int z + 1 / 2) \<longrightarrow> of_nat ?j / 100 = spec_round2 ?q)
      \<and> join_risk_status (Some (binary64 ?j 100)) = Some (spec_severity (of_nat ?j / 100))
      \<and> spec_severity (of_nat ?j / 100)
          = (if ?j \<le> 105 then ''LOW'' else if ?j \<le> 200 then ''MEDIUM'' else ''HIGH'')"
    if pos: "0 < ?k"
  proof -
    note qb = quotient_bounds [OF pos kn assms(2)]
    note xb = binary64_range [OF pos kn qb(2)]
    have j100: "100 \<le> ?j" by (rule round2_decimal_range(1) [OF xb(1,2)])
    have a: "duplication_ratio ?n ?k = Inr (Some (binary64 ?j 100))"
      by (rule duplication_ratio_value [OF pos kn assms(2)])
    have b: "\<bar>of_nat ?j / 100 - ?q\<bar> \<le> (1 / 200 :: rat)"
      by (rule ratio_near [OF pos kn assms(2)])
    have c: "of_nat ?j / 100 = spec_round2 ?q" if "\<forall>z::int. ?q * 100 \<noteq> of_int z + 1 / 2"
      by (rule ratio_exact_unless_tie [OF pos kn assms(2) that])
    have d: "join_risk_status (Some (binary64 ?j 100)) = Some (spec_severity (of_nat ?j / 100))"
      by (simp only: status_thresholds [OF j100] spec_severity_cents)
    have e: "spec_severity (of_nat ?j / 100)
        = (if ?j \<le> 105 then ''LOW'' else if ?j \<le> 200 then ''MEDIUM'' else ''HIGH'')"
      by (rule spec_severity_cents)
    from a b c d e show ?thesis by blast
  qed
  show ?thesis
  proof (rule exI [of _ ?s], intro conjI impI)
    show "getitem df primary_key = Inr ?s" by (rule g)
    show "unique_keys df primary_key = Inr ?k" by (rule uk)
    show "duplication_ratio ?n ?k = Inr None" if "?k = 0"
      using none [OF that] by (rule conjunct1)
    show "join_risk_status None = None" if "?k = 0"
      using none [OF that] by (rule conjunct2)
    show "\<exists>j. j = round2_decimal (binary64 ?n ?k)
      \<and> duplication_ratio ?n ?k = Inr (Some (binary64 j 100))
      \<and> \<bar>of_nat j / 100 - ?q\<bar> \<le> (1 / 200 :: rat)
      \<and> ((\<forall>z::int. ?q * 100 \<noteq> of_int z + 1 / 2) \<longrightarrow> of_nat j / 100 = spec_round2 ?q)
      \<and> join_risk_status (Some (binary64 j 100)) = Some (spec_severity (of_nat j / 100))
      \<and> spec_severity (of_nat j / 100)
          = (if j \<le> 105 then ''LOW'' else if j \<le> 200 then ''MEDIUM'' else ''HIGH'')"
      if "0 < ?k"
      using some [OF that] by (intro exI [of _ ?j])
  qed
qed

theorem join_inflation_risk_witness:
  "''order_id'' \<in> set (columns sample_frame) \<and> shape0 sample_frame < 2 ^ 45
   \<and> unique_keys sample_frame ''order_id'' = Inr 3
   \<and> duplication_ratio (shape0 sample_frame) 3 = Inr (Some (binary64 100 100))
   \<and> spec_round2 (of_nat 3 / of_nat 3) = 100 / 100
   \<and> join_risk_status (Some (binary64 100 100)) = Some ''LOW''
   \<and> ''customer'' \<in> set (columns keyless_frame) \<and> shape0 keyless_frame < 2 ^ 45
   \<and> unique_keys keyless_frame ''customer'' = Inr 0
   \<and> duplication_ratio (shape0 keyless_frame) 0 = Inr None"
proof -
  have m1: "''order_id'' \<in> set (columns sample_frame)" by (simp add: sample_frame_def)
  have n1: "shape0 sample_frame = 3" by (simp add: shape0_def sample_frame_def)
  then have b1: "shape0 sample_frame < 2 ^ 45" by simp
  have g1: "getitem sample_frame ''order_id'' = Inr [Num 1, Num 2, Num 3]"
    by (simp add: sample_frame_def getitem_def column_at_def)
  have k1: "nunique [Num 1, Num 2, Num (3::int)] = 3" by (simp add: nunique_def)
  have m2: "''customer'' \<in> set (columns keyless_frame)" by (simp add: keyless_frame_def)
  have n2: "shape0 keyless_frame = 2" by (simp add: shape0_def keyless_frame_def)
  then have b2: "shape0 keyless_frame < 2 ^ 45" by simp
  have g2: "getitem keyless_frame ''customer'' = Inr [NaN, NaN]"
    by (simp add: keyless_frame_def getitem_def column_at_def)
  have k2: "nunique [NaN, NaN :: int cell] = 0" by (simp add: nunique_def)
  have no_tie: "\<forall>z::int. (of_nat 3 / of_nat 3 * 100 :: rat) \<noteq> of_int z + 1 / 2"
  proof
    fix z :: int
    show "(of_nat 3 / of_nat 3 * 100 :: rat) \<noteq> of_int z + 1 / 2"
    proof
      assume "(of_nat 3 / of_nat 3 * 100 :: rat) = of_int z + 1 / 2"
      then have "(of_int (2 * z + 1) :: rat) = of_int 200" by simp
      then have "2 * z + 1 = 200" by (simp only: of_int_eq_iff)
      then show False by presburger
    qed
  qed
  from join_inflation_risk [OF m1 b1] g1 k1 n1
  obtain j where u1: "unique_keys sample_frame ''order_id'' = Inr 3"
    and r1: "duplication_ratio 3 3 = Inr (Some (binary64 j 100))"
    and ex: "(\<forall>z::int. (of_nat 3 / of_nat 3 * 100 :: rat) \<noteq> of_int z + 1 / 2) \<longrightarrow>
        of_nat j / 100 = spec_round2 (of_nat 3 / of_nat 3)"
    and st: "join_risk_status (Some (binary64 j 100)) = Some (spec_severity (of_nat j / 100))"
    and sv: "spec_severity (of_nat j / 100)
        = (if j \<le> 105 then ''LOW'' else if j \<le> 200 then ''MEDIUM'' else ''HIGH'')"
    by auto
  from ex no_tie have eq: "of_nat j / 100 = spec_round2 (of_nat 3 / of_nat 3)" by blast
  have sp: "spec_round2 (of_nat 3 / of_nat 3) = 100 / 100" by code_simp
  from eq sp have "(of_nat j :: rat) = of_nat 100" by simp
  then have j: "j = 100" by (simp only: of_nat_eq_iff)
  from join_inflation_risk [OF m2 b2] g2 k2
  have u2: "unique_keys keyless_frame ''customer'' = Inr 0"
    and r2: "duplication_ratio (shape0 keyless_frame) 0 = Inr None"
    by auto
  from st sv have st': "join_risk_status (Some (binary64 j 100)) = Some ''LOW''"
    unfolding j by simp
  from m1 b1 u1 r1 sp st' m2 b2 u2 r2 n1 show ?thesis unfolding j by simp
qed

lemma tie_frame_shape: "shape0 tie_frame = 211"
  by (simp add: shape0_def tie_frame_def)

lemma tie_frame_keys: "unique_keys tie_frame ''customer'' = Inr 200"
  by code_simp

text \<open>
  The claim as the specification words it fails on \<open>tie_frame\<close>: 211 rows over 200
  distinct keys are 1.055, which rounds to 1.06 and MEDIUM, half up and half to even
  alike. The float quotient lies just below 1.055, so the script shows 1.05 and
  LOW.
\<close>

theorem join_inflation_risk_counterexample:
  "shape0 tie_frame = 211
   \<and> unique_keys tie_frame ''customer'' = Inr 200
   \<and> duplication_ratio 211 200 = Inr (Some (binary64 105 100))
   \<and> join_risk_status (Some (binary64 105 100)) = Some ''LOW''
   \<and> spec_join_risk 211 200 = Some (106 / 100, ''MEDIUM'')
   \<and> round (211 / 200 * 100 :: rat) = 106
   \<and> binary64 105 100 \<noteq> binary64 106 100"
proof -
  have "duplication_ratio 211 200 = Inr (Some (binary64 105 100))"
    using duplication_ratio_value [of 200 211] by (simp add: tie_211_200(1))
  moreover have "join_risk_status (Some (binary64 105 100)) = Some ''LOW''"
    using status_thresholds [of 105] by simp
  ultimately show ?thesis
    using tie_frame_shape tie_frame_keys tie_211_200(2-4) by simp
qed

text \<open>
  The examples of the specification, and two quotients that lie exactly between two
  decimals: there the stored binary value of the quotient decides, so 43 rows over 40
  keys (1.075) give 1.07, and 211 rows over 200 keys (1.055) give 1.05 and LOW.
\<close>

lemma duplication_ratio_examples:
  "duplication_ratio 3 3 = Inr (Some 1) \<and> join_risk_status (Some 1) = Some ''LOW''"
  "duplication_ratio 3 2 = Inr (Some (3 / 2))
     \<and> join_risk_status (Some (3 / 2)) = Some ''MEDIUM''"
  "duplication_ratio 3 1 = Inr (Some 3) \<and> join_risk_status (Some 3) = Some ''HIGH''"
  "duplication_ratio 43 40 = Inr (Some (binary64 107 100))"
  "duplication_ratio 211 200 = Inr (Some (binary64 105 100))
     \<and> join_risk_status (Some (binary64 105 100)) = Some ''LOW''"
proof -
  have j: "round2_decimal (binary64 3 3) = 100" "round2_decimal (binary64 3 2) = 150"
    "round2_decimal (binary64 3 (Suc 0)) = 300" "round2_decimal (binary64 43 40) = 107"
    "round2_decimal (binary64 211 200) = 105"
    by code_simp+
  have v: "binary64 100 100 = 1" "binary64 150 100 = 3 / 2" "binary64 300 100 = 3"
    by code_simp+
  show "duplication_ratio 3 3 = Inr (Some 1) \<and> join_risk_status (Some 1) = Some ''LOW''"
    using duplication_ratio_value [of 3 3] status_thresholds [of 100] by (simp add: j v)
  show "duplication_ratio 3 2 = Inr (Some (3 / 2))
      \<and> join_risk_status (Some (3 / 2)) = Some ''MEDIUM''"
    using duplication_ratio_value [of 2 3] status_thresholds [of 150] by (simp add: j v)
  show "duplication_ratio 3 1 = Inr (Some 3) \<and> join_risk_status (Some 3) = Some ''HIGH''"
    using duplication_ratio_value [of 1 3] status_thresholds [of 300] by (simp add: j v)
  show "duplication_ratio 43 40 = Inr (Some (binary64 107 100))"
    using duplication_ratio_value [of 40 43] by (simp add: j)
  show "duplication_ratio 211 200 = Inr (Some (binary64 105 100))
      \<and> join_risk_status (Some (binary64 105 100)) = Some ''LOW''"
    using duplication_ratio_value [of 200 211] status_thresholds [of 105] by (simp add: j)
qed


subsection \<open>Aggregation check on integer columns\<close>

text \<open>
  Sums and products of 64-bit words are the exact sums and products reduced modulo
  \<open>2 ^ 64\<close>, so the difference the script computes is the exact difference
  reduced.
\<close>

lemma sum_list_int64: "sum_list ws = (word_of_int (sum_list (map sint ws)) :: 64 word)"
  by (induction ws) simp_all

lemma sum_products_int64:
  "sum_list (map2 (*) qs ps)
     = (word_of_int (sum_list (map2 (*) (map sint qs) (map sint ps))) :: 64 word)"
proof (induction qs arbitrary: ps)
  case Nil
  then show ?case by simp
next
  case (Cons q qs)
  then show ?case by (cases ps) simp_all
qed

lemma difference_int64:
  "sum_list revenue - sum_list (map2 (*) qty price)
     = (word_of_int (exact_difference (map sint qty) (map sint price) (map sint revenue)) :: 64 word)"
  unfolding exact_difference_def
  by (subst sum_list_int64, subst sum_products_int64) simp

lemma two_values:
  fixes y m :: int
  assumes "0 < m" and "0 \<le> y" and "y < 2 * m"
  shows "m dvd y \<longleftrightarrow> y = 0 \<or> y = m"
proof
  assume "m dvd y"
  then obtain c where c: "y = m * c" by (rule dvdE)
  from c assms(3) have "m * c < m * 2" by (metis mult.commute)
  then have "c < 2" using assms(1) by (simp only: mult_less_cancel_left_pos)
  from c assms(2) have "0 \<le> m * c" by simp
  then have "0 \<le> c" using assms(1) by (auto simp: zero_le_mult_iff)
  with \<open>c < 2\<close> have "c = 0 \<or> c = 1" by auto
  with c show "y = 0 \<or> y = m" by auto
next
  assume "y = 0 \<or> y = m"
  then show "m dvd y" by auto
qed

lemma signed_63_pass:
  fixes D :: int
  shows "signed_take_bit 63 D = 0 \<or> signed_take_bit 63 D = - (2 ^ 63) \<longleftrightarrow> 2 ^ 63 dvd D"
proof -
  let ?m = "2 ^ 63 :: int"
  let ?y = "(D + ?m) mod (2 * ?m)"
  have s: "signed_take_bit 63 D = ?y - ?m"
    by (simp add: signed_take_bit_eq_take_bit_shift take_bit_eq_mod)
  have y: "0 \<le> ?y" "?y < 2 * ?m" by simp_all
  have "?m dvd D \<longleftrightarrow> ?m dvd (D + ?m)" by simp
  also have "\<dots> \<longleftrightarrow> ?m dvd ?y" by (simp add: dvd_mod_iff)
  also have "\<dots> \<longleftrightarrow> ?y = 0 \<or> ?y = ?m" by (rule two_values [OF _ y]) simp
  finally show ?thesis unfolding s by auto
qed

lemma abs_int64:
  fixes d :: "64 word"
  shows "sint (if d <s 0 then - d else d) \<le> 0 \<longleftrightarrow> sint d = 0 \<or> sint d = - (2 ^ 63)"
proof (cases "sint d < 0")
  case False
  then show ?thesis by (auto simp: word_sless_alt)
next
  case True
  have ge: "- (2 ^ 63) \<le> sint d" using sint_ge [of d] by simp
  show ?thesis
  proof (cases "sint d = - (2 ^ 63)")
    case m: True
    then have "sint (- d) = signed_take_bit 63 (2 ^ 63)" by (simp add: sint_word_minus)
    also have "\<dots> = - (2 ^ 63)" by (simp add: signed_take_bit_eq_take_bit_shift take_bit_eq_mod)
    finally show ?thesis using True m by (simp add: word_sless_alt)
  next
    case nm: False
    with ge True have "- (2 ^ 63) \<le> - sint d" "- sint d < 2 ^ 63" by simp_all
    then have "signed_take_bit 63 (- sint d) = - sint d" by (rule signed_take_bit_int_eq_self)
    then have "sint (- d) = - sint d" by (simp add: sint_word_minus)
    with True nm show ?thesis by (simp add: word_sless_alt)
  qed
qed

lemma agg_status_int64_iff:
  "agg_status_int64 qty price revenue
     = (if 2 ^ 63 dvd exact_difference (map sint qty) (map sint price) (map sint revenue)
        then ''PASS'' else ''FAIL'')"
proof -
  let ?D = "exact_difference (map sint qty) (map sint price) (map sint revenue)"
  let ?d = "word_of_int ?D :: 64 word"
  have sd: "sint ?d = signed_take_bit 63 ?D" by (simp add: sint_sbintrunc')
  have "rat_of_int (sint (if ?d <s 0 then - ?d else ?d)) \<le> 1 / 100
      \<longleftrightarrow> sint (if ?d <s 0 then - ?d else ?d) \<le> 0"
  proof -
    have "rat_of_int z \<le> 1 / 100 \<longleftrightarrow> z \<le> 0" for z :: int
    proof
      assume "rat_of_int z \<le> 1 / 100"
      then have "rat_of_int z < of_int 1" by simp
      then have "z < 1" by (simp only: of_int_less_iff)
      then show "z \<le> 0" by simp
    next
      assume "z \<le> 0"
      then have "rat_of_int z \<le> of_int 0" by (simp only: of_int_le_iff)
      then show "rat_of_int z \<le> 1 / 100" by simp
    qed
    then show ?thesis .
  qed
  also have "\<dots> \<longleftrightarrow> sint ?d = 0 \<or> sint ?d = - (2 ^ 63)" by (rule abs_int64)
  also have "\<dots> \<longleftrightarrow> 2 ^ 63 dvd ?D" unfolding sd by (rule signed_63_pass)
  finally show ?thesis
    by (simp add: agg_status_int64_def Let_def difference_int64)
qed

lemma agg_status_int64_exact:
  assumes "\<bar>exact_difference (map sint qty) (map sint price) (map sint revenue)\<bar> < 2 ^ 63"
  shows "agg_status_int64 qty price revenue
       = spec_agg_status (map sint qty) (map sint price) (map sint revenue)"
proof -
  let ?D = "exact_difference (map sint qty) (map sint price) (map sint revenue)"
  have "2 ^ 63 dvd ?D \<longleftrightarrow> ?D = 0"
  proof
    assume "2 ^ 63 dvd ?D"
    then have d: "2 ^ 63 dvd \<bar>?D\<bar>" by simp
    show "?D = 0"
    proof (rule ccontr)
      assume "?D \<noteq> 0"
      then have "0 < \<bar>?D\<bar>" by simp
      from zdvd_not_zless [OF this assms] d show False by simp
    qed
  next
    assume "?D = 0"
    then show "2 ^ 63 dvd ?D" by simp
  qed
  moreover have "\<bar>rat_of_int ?D\<bar> \<le> 1 / 100 \<longleftrightarrow> ?D = 0"
  proof
    assume "\<bar>rat_of_int ?D\<bar> \<le> 1 / 100"
    then have "rat_of_int \<bar>?D\<bar> < of_int 1" by simp
    then have "\<bar>?D\<bar> < 1" by (simp only: of_int_less_iff)
    then show "?D = 0" by simp
  next
    assume "?D = 0"
    then show "\<bar>rat_of_int ?D\<bar> \<le> 1 / 100" by simp
  qed
  ultimately show ?thesis
    by (simp add: agg_status_int64_iff spec_agg_status_def)
qed

text \<open>
  The two examples of the specification are integer columns: a difference of 1 fails
  and a difference of 0 passes. A product beyond 64 bits wraps around as a sum does.
\<close>

lemma agg_status_int64_examples:
  "agg_status_int64 [2, 3] [5, 5] [10, 16] = ''FAIL''"
  "agg_status_int64 [2, 3] [5, 5] [10, 15] = ''PASS''"
  "agg_status_int64 [4294967296] [4294967296] [0] = ''PASS''"
  by (simp_all add: agg_status_int64_def word_sless_alt)

text \<open>
  Claim C2. The check reports PASS exactly when the absolute difference of the sums
  is at most 0.01: on integer columns the script does so as long as the exact
  difference stays below \<open>2 ^ 63\<close> (\<open>agg_status_int64_exact\<close>), and misses it when
  a sum wraps around. Four revenues of \<open>2 ^ 62\<close> against quantities and prices of 0
  differ from the computed revenue by \<open>2 ^ 64\<close>; their 64-bit sum is 0, and the
  script reports PASS with the message that the revenues match.
\<close>

theorem aggregation_wraps_around:
  "map sint [4611686018427387904, 4611686018427387904, 4611686018427387904,
       4611686018427387904 :: 64 word]
     = [4611686018427387904, 4611686018427387904, 4611686018427387904, 4611686018427387904]
   \<and> map sint [0, 0, 0, 0 :: 64 word] = [0, 0, 0, 0]
   \<and> exact_difference [0, 0, 0, 0] [0, 0, 0, 0]
       [4611686018427387904, 4611686018427387904, 4611686018427387904, 4611686018427387904]
     = 18446744073709551616
   \<and> spec_agg_status [0, 0, 0, 0] [0, 0, 0, 0]
       [4611686018427387904, 4611686018427387904, 4611686018427387904, 4611686018427387904]
     = ''FAIL''
   \<and> agg_status_int64 [0, 0, 0, 0] [0, 0, 0, 0]
       [4611686018427387904, 4611686018427387904, 4611686018427387904, 4611686018427387904]
     = ''PASS''
   \<and> explain ''aggregation'' ''PASS''
     = Inr (''Reported revenue matches calculated revenue.'',
            ''Aggregation logic appears correct.'', ''No action needed.'')"
  by (simp add: agg_status_int64_def word_sless_alt exact_difference_def spec_agg_status_def
      explain_aggregation)

end
